theory Spec2Isabelle
  imports Complex_Main "HOL-Library.Monad_Syntax" "HOL-Library.Sublist"
begin

section \<open>Strings and the Python runtime\<close>

text \<open>
  A Python \<open>str\<close> is a sequence of Unicode code points, and \<open>len\<close> counts code points
  (the vocabulary holds one word with U+2019), so a character is its code point and a
  string a list of them. \<open>py\<close> reads an ASCII literal. A Python \<open>int\<close> is an \<open>int\<close>;
  a \<open>float\<close> of the clock and of the derived metrics is modelled by an exact \<open>real\<close>.
  A raised exception (\<open>IndexError\<close>, \<open>ZeroDivisionError\<close>, \<open>OverflowError\<close>) is the
  value \<open>None\<close>.
\<close>

type_synonym pychar = nat
type_synonym pystr = "pychar list"

definition py :: "string \<Rightarrow> pystr" where
  "py s = map of_char s"

definition sp :: pychar where \<comment> \<open>\<open>" "\<close>\<close>
  "sp = 32"

definition tab :: pychar where \<comment> \<open>\<open>"\t"\<close>\<close>
  "tab = 9"

definition nl :: pychar where \<comment> \<open>\<open>"\n"\<close>\<close>
  "nl = 10"

definition cr :: pychar where \<comment> \<open>\<open>"\r"\<close>\<close>
  "cr = 13"

definition esc :: pychar where \<comment> \<open>\<open>"\x1b"\<close>\<close>
  "esc = 27"

definition bs :: pychar where \<comment> \<open>\<open>"\b"\<close>\<close>
  "bs = 8"

definition del :: pychar where \<comment> \<open>\<open>"\x7f"\<close>\<close>
  "del = 127"

text \<open>\<open>xs[i]\<close> for a Python list or string: a negative index counts from the end, an
  index out of range raises.\<close>

definition py_get :: "'a list \<Rightarrow> int \<Rightarrow> 'a option" where
  "py_get xs i =
     (if 0 \<le> i \<and> i < int (length xs) then Some (xs ! nat i)
      else if i < 0 \<and> - int (length xs) \<le> i then Some (xs ! nat (int (length xs) + i))
      else None)"

text \<open>\<open>sep.join(xs)\<close>.\<close>

fun join :: "pystr \<Rightarrow> pystr list \<Rightarrow> pystr" where
  "join sep [] = []"
| "join sep [x] = x"
| "join sep (x # y # ys) = x @ sep @ join sep (y # ys)"

text \<open>\<open>text.split(c)\<close> for a one-character separator: every occurrence of the separator
  ends a field, so the result is never empty and holds empty fields between adjacent
  separators.\<close>

fun str_split :: "pychar \<Rightarrow> pystr \<Rightarrow> pystr list" where
  "str_split c [] = [[]]"
| "str_split c (x # xs) =
     (if x = c then [] # str_split c xs
      else (case str_split c xs of
              [] \<Rightarrow> [[x]]
            | w # ws \<Rightarrow> (x # w) # ws))"

text \<open>The characters \<open>str.strip()\<close> removes: Python's Unicode whitespace.\<close>

definition isspace :: "pychar \<Rightarrow> bool" where
  "isspace c =
     ((9 \<le> c \<and> c \<le> 13) \<or> (28 \<le> c \<and> c \<le> 32) \<or> c = 133 \<or> c = 160 \<or> c = 5760 \<or>
      (8192 \<le> c \<and> c \<le> 8202) \<or> c = 8232 \<or> c = 8233 \<or> c = 8239 \<or> c = 8287 \<or>
      c = 12288)"

definition strip :: "pystr \<Rightarrow> pystr" where
  "strip s = rev (dropWhile isspace (rev (dropWhile isspace s)))"

text \<open>
  What the program calls in the Python runtime and the repository does not hold:
  \<open>random.Random(seed)\<close> for an integer seed, the draw behind \<open>Random.choice\<close>
  (an index below the length, and the generator's next state), the Unicode
  database's answer to \<open>str.isprintable\<close> beyond ASCII, and the double-precision value
  of \<open>(seconds / 60.0) * 300\<close>: \<open>None\<close> where converting \<open>seconds\<close> to a float raises
  \<open>OverflowError\<close>, an infinity where the product overflows, the rounded product
  otherwise. \<open>'g\<close> is the generator's state.
\<close>

datatype pyfloat = Finite real | PosInf | NegInf

record 'g runtime =
  seeded :: "int \<Rightarrow> 'g"
  randbelow :: "'g \<Rightarrow> nat \<Rightarrow> nat \<times> 'g"
  unicode_printable :: "pychar \<Rightarrow> bool"
  scaled_seconds :: "int \<Rightarrow> pyfloat option"

definition isprintable :: "'g runtime \<Rightarrow> pychar \<Rightarrow> bool" where
  "isprintable R c = (if c < 128 then 32 \<le> c \<and> c < 127 else unicode_printable R c)"

text \<open>\<open>rng.choice(xs)\<close>: raises on an empty sequence; the index is below the length
  (the remainder keeps that for every runtime).\<close>

definition choice :: "'g runtime \<Rightarrow> 'g \<Rightarrow> 'a list \<Rightarrow> ('a \<times> 'g) option" where
  "choice R g xs =
     (if xs = [] then None
      else (case randbelow R g (length xs) of
              (i, g') \<Rightarrow> Some (xs ! (i mod length xs), g')))"

section \<open>Vocabulary\<close>

definition DEFAULT_WORDS :: "pystr list" where
  "DEFAULT_WORDS = [
    py ''the'', py ''of'', py ''and'', py ''to'', py ''in'', py ''is'', py ''you'', py ''that'',
    py ''it'', py ''he'', py ''was'', py ''for'', py ''on'', py ''are'', py ''as'', py ''with'',
    py ''his'', py ''they'', py ''I'', py ''at'', py ''be'', py ''this'', py ''have'',
    py ''from'', py ''or'', py ''one'', py ''had'', py ''by'', py ''word'', py ''but'',
    py ''not'', py ''what'', py ''all'', py ''were'', py ''we'', py ''when'', py ''your'',
    py ''can'', py ''said'', py ''there'', py ''use'', py ''an'', py ''each'', py ''which'',
    py ''she'', py ''do'', py ''how'', py ''their'', py ''if'', py ''will'', py ''up'',
    py ''other'', py ''about'', py ''out'', py ''many'', py ''then'', py ''them'', py ''these'',
    py ''so'', py ''some'', py ''her'', py ''would'', py ''make'', py ''like'', py ''him'',
    py ''into'', py ''time'', py ''has'', py ''look'', py ''two'', py ''more'', py ''write'',
    py ''go'', py ''see'', py ''number'', py ''no'', py ''way'', py ''could'', py ''people'',
    py ''my'', py ''than'', py ''first'', py ''water'', py ''been'', py ''call'', py ''who'',
    py ''oil'', py ''its'', py ''now'', py ''find'', py ''long'', py ''down'', py ''day'',
    py ''did'', py ''get'', py ''come'', py ''made'', py ''may'', py ''part'', py ''over'',
    py ''new'', py ''sound'', py ''take'', py ''only'', py ''little'', py ''work'', py ''know'',
    py ''place'', py ''year'', py ''live'', py ''me'', py ''back'', py ''give'', py ''most'',
    py ''very'', py ''after'', py ''thing'', py ''our'', py ''just'', py ''name'', py ''good'',
    py ''sentence'', py ''man'', py ''think'', py ''say'', py ''great'', py ''where'',
    py ''help'', py ''through'', py ''much'', py ''before'', py ''line'', py ''right'',
    py ''too'', py ''means'', py ''old'', py ''any'', py ''same'', py ''tell'', py ''boy'',
    py ''follow'', py ''came'', py ''want'', py ''show'', py ''also'', py ''around'',
    py ''form'', py ''three'', py ''small'', py ''set'', py ''put'', py ''end'', py ''does'',
    py ''another'', py ''well'', py ''large'', py ''must'', py ''big'', py ''even'', py ''such'',
    py ''because'', py ''turn'', py ''here'', py ''why'', py ''ask'', py ''went'', py ''men'',
    py ''read'', py ''need'', py ''land'', py ''different'', py ''home'', py ''us'', py ''move'',
    py ''try'', py ''kind'', py ''hand'', py ''picture'', py ''again'', py ''change'',
    py ''off'', py ''play'', py ''spell'', py ''air'', py ''away'', py ''animal'', py ''house'',
    py ''point'', py ''page'', py ''letter'', py ''mother'', py ''answer'', py ''found'',
    py ''study'', py ''still'', py ''learn'', py ''should'', py ''America'', py ''world'',
    py ''high'', py ''every'', py ''near'', py ''add'', py ''food'', py ''between'', py ''own'',
    py ''below'', py ''country'', py ''plant'', py ''last'', py ''school'', py ''father'',
    py ''keep'', py ''tree'', py ''never'', py ''start'', py ''city'', py ''earth'', py ''eye'',
    py ''light'', py ''thought'', py ''head'', py ''under'', py ''story'', py ''saw'',
    py ''left'', py ''don't'', py ''few'', py ''while'', py ''along'', py ''might'',
    py ''close'', py ''something'', py ''seem'', py ''next'', py ''hard'', py ''open'',
    py ''example'', py ''begin'', py ''life'', py ''always'', py ''those'', py ''both'',
    py ''paper'', py ''together'', py ''got'', py ''group'', py ''often'', py ''run'',
    py ''important'', py ''until'', py ''children'', py ''side'', py ''feet'', py ''car'',
    py ''mile'', py ''night'', py ''walk'', py ''white'', py ''sea'', py ''began'', py ''grow'',
    py ''took'', py ''river'', py ''four'', py ''carry'', py ''state'', py ''once'', py ''book'',
    py ''hear'', py ''stop'', py ''without'', py ''second'', py ''late'', py ''miss'',
    py ''idea'', py ''enough'', py ''eat'', py ''face'', py ''watch'', py ''far'', py ''Indian'',
    py ''real'', py ''almost'', py ''let'', py ''above'', py ''girl'', py ''sometimes'',
    py ''mountain'', py ''cut'', py ''young'', py ''talk'', py ''soon'', py ''list'',
    py ''song'', py ''being'', py ''leave'', py ''family'', py ''it's'', py ''body'',
    py ''music'', py ''color'', py ''stand'', py ''sun'', py ''questions'', py ''fish'',
    py ''area'', py ''mark'', py ''dog'', py ''horse'', py ''birds'', py ''problem'',
    py ''complete'', py ''room'', py ''knew'', py ''since'', py ''ever'', py ''piece'',
    py ''told'', py ''usually'', py ''didn'' @ [8217] @ py ''t'', py ''friends'', py ''easy'',
    py ''heard'', py ''order'', py ''red'', py ''door'', py ''sure'', py ''become'', py ''top'',
    py ''ship'', py ''across'', py ''today'', py ''during'', py ''short'', py ''better'',
    py ''best'', py ''however'', py ''low'', py ''hours'', py ''black'', py ''products'',
    py ''happened'', py ''whole'', py ''measure'', py ''remember'', py ''early'', py ''waves'',
    py ''reached'', py ''listen'', py ''wind'', py ''rock'', py ''space'', py ''covered'',
    py ''fast'', py ''several'', py ''hold'', py ''himself'', py ''toward'', py ''five'',
    py ''step'', py ''morning'', py ''passed'', py ''vowel'', py ''true'', py ''hundred'',
    py ''against'', py ''pattern'', py ''numeral'', py ''table'', py ''north'', py ''slowly'',
    py ''money'', py ''map'', py ''farm'', py ''pulled'', py ''draw'', py ''voice'', py ''seen'',
    py ''cold'', py ''cried'', py ''plan'', py ''notice'', py ''south'', py ''sing'', py ''war'',
    py ''ground'', py ''fall'', py ''king'', py ''town'', py ''I'll'', py ''unit'',
    py ''figure'', py ''certain'', py ''field'', py ''travel'', py ''wood'', py ''fire'',
    py ''upon'', py ''done'', py ''English'', py ''road'', py ''halt'', py ''ten'', py ''fly'',
    py ''gave'', py ''box'', py ''finally'', py ''waited'', py ''correct'', py ''oh'',
    py ''quickly'', py ''person'', py ''became'', py ''shown'', py ''minutes''
  ]"

definition NUMBERS :: "pystr list" where
  "NUMBERS = map (\<lambda>c. [c]) (py ''0123456789'')"

definition PUNCT :: "pystr list" where
  "PUNCT = str_split sp (py '', . ! ? : ; '' @ [39, sp, 34] @ py '' - ( ) [ ] { } / '' @ [92])"

section \<open>Config, Stats and the derived metrics\<close>

record config =
  mode :: string
  seconds :: int
  words :: int
  numbers :: bool
  punctuation :: bool
  seed :: "int option"

record stats =
  started :: "real option"
  ended :: "real option"
  typed :: int
  correct :: int
  mistakes :: int

definition Stats :: stats where
  "Stats = \<lparr>started = None, ended = None, typed = 0, correct = 0, mistakes = 0\<rparr>"

text \<open>\<open>now\<close> is what \<open>time.time()\<close> returns at the call.\<close>

definition start :: "stats \<Rightarrow> real \<Rightarrow> stats" where
  "start s now = (if started s = None then s\<lparr>started := Some now\<rparr> else s)"

definition stop :: "stats \<Rightarrow> real \<Rightarrow> stats" where
  "stop s now = (if ended s = None then s\<lparr>ended := Some now\<rparr> else s)"

definition seconds_elapsed :: "stats \<Rightarrow> real \<Rightarrow> real" where
  "seconds_elapsed s now =
     (case started s of
        None \<Rightarrow> 0
      | Some t0 \<Rightarrow> max 0 ((case ended s of Some e \<Rightarrow> e | None \<Rightarrow> now) - t0))"

definition minutes_elapsed :: "stats \<Rightarrow> real \<Rightarrow> real" where
  "minutes_elapsed s now = seconds_elapsed s now / 60"

definition accuracy :: "stats \<Rightarrow> real" where
  "accuracy s = (if typed s = 0 then 0 else real_of_int (correct s) / real_of_int (typed s))"

text \<open>\<open>raw_wpm\<close> evaluates the property \<open>minutes_elapsed\<close> twice, for the test and for
  the divisor, so it reads the clock twice while the session has not ended: \<open>now1\<close> and
  \<open>now2\<close> are the two readings. Dividing by \<open>0.0\<close> raises \<open>ZeroDivisionError\<close>.\<close>

definition raw_wpm :: "stats \<Rightarrow> real \<Rightarrow> real \<Rightarrow> real option" where
  "raw_wpm s now1 now2 =
     (if minutes_elapsed s now1 \<le> 0 then Some 0
      else if minutes_elapsed s now2 = 0 then None
      else Some ((real_of_int (correct s) / 5) / minutes_elapsed s now2))"

section \<open>WordSource\<close>

text \<open>\<open>entropy\<close> is the state \<open>random.Random(None)\<close> takes from the operating system at
  this construction; a configured seed ignores it.\<close>

record 'g word_source =
  src_words :: "pystr list"
  rng :: 'g

definition WordSource :: "'g runtime \<Rightarrow> config \<Rightarrow> 'g \<Rightarrow> 'g word_source" where
  "WordSource R cfg entropy =
     (let base = DEFAULT_WORDS;
          base = (if numbers cfg then base @ NUMBERS else base);
          base = (if punctuation cfg then base @ PUNCT else base)
      in \<lparr>src_words = base,
          rng = (case seed cfg of None \<Rightarrow> entropy | Some s \<Rightarrow> seeded R s)\<rparr>)"

fun draw :: "'g runtime \<Rightarrow> pystr list \<Rightarrow> 'g \<Rightarrow> nat \<Rightarrow> (pystr list \<times> 'g) option" where
  "draw R ws g 0 = Some ([], g)"
| "draw R ws g (Suc n) =
     (case choice R g ws of
        None \<Rightarrow> None
      | Some (w, g1) \<Rightarrow>
          (case draw R ws g1 n of
             None \<Rightarrow> None
           | Some (rest, g2) \<Rightarrow> Some (w # rest, g2)))"

text \<open>\<open>generate\<close> returns the words and the source with its generator advanced;
  \<open>range(count)\<close> is empty for \<open>count \<le> 0\<close>.\<close>

definition generate ::
  "'g runtime \<Rightarrow> 'g word_source \<Rightarrow> int \<Rightarrow> (pystr list \<times> 'g word_source) option" where
  "generate R src count =
     (case draw R (src_words src) (rng src) (nat count) of
        None \<Rightarrow> None
      | Some (ws, g) \<Rightarrow> Some (ws, src\<lparr>rng := g\<rparr>))"

text \<open>The Time-mode word count \<open>int(max(50, (config.seconds / 60.0) * 300))\<close> on the
  runtime's double: \<open>max\<close> keeps 50 unless the float is greater, \<open>int\<close> truncates a
  finite float and raises \<open>OverflowError\<close> on infinity.\<close>

definition est_words :: "'g runtime \<Rightarrow> config \<Rightarrow> int option" where
  "est_words R cfg =
     (case scaled_seconds R (seconds cfg) of
        None \<Rightarrow> None
      | Some PosInf \<Rightarrow> None
      | Some NegInf \<Rightarrow> Some 50
      | Some (Finite x) \<Rightarrow> Some (if 50 < x then \<lfloor>x\<rfloor> else 50))"

definition build_text :: "'g runtime \<Rightarrow> 'g word_source \<Rightarrow> config \<Rightarrow> pystr option" where
  "build_text R source cfg =
     (case (if mode cfg = ''words'' then Some (max 1 (words cfg)) else est_words R cfg) of
        None \<Rightarrow> None
      | Some count \<Rightarrow>
          (case generate R source count of
             None \<Rightarrow> None
           | Some (ws, _) \<Rightarrow> Some (join [sp] ws)))"

section \<open>Wrapping and the coordinate table\<close>

text \<open>The inner \<open>while len(w) > width\<close> loop of \<open>wrap_text_to_lines\<close>: it returns the
  lines with the chunks appended and the remainder of the word. The loop is only reached
  with \<open>width \<ge> 1\<close> (the function returns early otherwise), which is what ends it.\<close>

function hard_split :: "nat \<Rightarrow> pystr list \<Rightarrow> pystr \<Rightarrow> pystr list \<times> pystr" where
  "hard_split width lines w =
     (if width < length w \<and> 0 < width
      then hard_split width (lines @ [take width w]) (drop width w)
      else (lines, w))"
  by pat_completeness auto
termination
  by (relation "measure (\<lambda>(width, lines, w). length w)") auto

declare hard_split.simps [simp del]

text \<open>The body of the \<open>for w in words\<close> loop, on the pair \<open>(lines, line)\<close>.\<close>

definition wrap_word :: "nat \<Rightarrow> pystr list \<times> pystr \<Rightarrow> pystr \<Rightarrow> pystr list \<times> pystr" where
  "wrap_word width state w =
     (case state of (lines, line) \<Rightarrow>
        (let trial = (if line = [] then w else line @ [sp] @ w)
         in if length trial \<le> width then (lines, trial)
            else hard_split width (if line \<noteq> [] then lines @ [line] else lines) w))"

definition wrap_text_to_lines :: "pystr \<Rightarrow> int \<Rightarrow> pystr list" where
  "wrap_text_to_lines text width =
     (if width \<le> 0 then [text]
      else (case foldl (wrap_word (nat width)) ([], []) (str_split sp text) of
              (lines, line) \<Rightarrow> if line \<noteq> [] then lines @ [line] else lines))"

text \<open>The table \<open>flat_to_line\<close> that \<open>render_screen\<close> and \<open>draw_text\<close> both build: the
  body of the loop over \<open>enumerate(lines)\<close> on the pair \<open>(flat_to_line, idx)\<close>, and the
  whole loop.\<close>

definition map_line ::
  "pystr \<Rightarrow> int \<Rightarrow> (nat \<times> nat) list \<times> nat \<Rightarrow> nat \<times> pystr \<Rightarrow> (nat \<times> nat) list \<times> nat" where
  "map_line text max_text_width state e =
     (case state of (flat_to_line, idx) \<Rightarrow>
      (case e of (li, line) \<Rightarrow>
        (let flat_to_line = flat_to_line @ map (\<lambda>ci. (li, ci)) [0..<length line];
             idx = idx + length line
         in if idx < length text \<and> text ! idx = sp \<and> int (length line) < max_text_width
            then (flat_to_line @ [(li, length line)], idx + 1)
            else (flat_to_line, idx))))"

definition flat_to_line :: "pystr \<Rightarrow> pystr list \<Rightarrow> int \<Rightarrow> (nat \<times> nat) list" where
  "flat_to_line text lines max_text_width =
     fst (foldl (map_line text max_text_width) ([], 0) (enumerate 0 lines))"

text \<open>The lines and the table of \<open>render_screen\<close> for a screen \<open>width\<close> columns wide.\<close>

definition render_layout :: "pystr \<Rightarrow> int \<Rightarrow> pystr list \<times> (nat \<times> nat) list" where
  "render_layout text width =
     (let max_text_width = max 1 (width - 2);
          lines = wrap_text_to_lines text max_text_width
      in (lines, flat_to_line text lines max_text_width))"

section \<open>The typing session\<close>

text \<open>
  \<open>stdscr.get_wch()\<close> returns a one-character string or an integer key code. The curses
  key codes are those of ncurses. One pass of the session's loop reads a key, the clock
  at up to four places (\<open>stats.start()\<close>, \<open>finished()\<close> at the extension test,
  \<open>finished()\<close> at the end of the pass, \<open>stats.stop()\<close>) and, for an unseeded
  \<open>WordSource\<close>, the operating system's entropy: these are the pass's inputs. Nothing is
  assumed of the clock. Painting the screen (with its status line, where \<open>raw_wpm\<close> and
  \<open>accuracy\<close> are evaluated) and the keyboard highlight change no variable of the
  session and are left out.
\<close>

datatype wch = Str pychar | Code int

definition KEY_EXIT :: int where
  "KEY_EXIT = 361"

definition KEY_RESIZE :: int where
  "KEY_RESIZE = 410"

definition KEY_BACKSPACE :: int where
  "KEY_BACKSPACE = 263"

record 'g input =
  key :: wch
  t_start :: real
  t_extend :: real
  t_check :: real
  t_stop :: real
  os_entropy :: 'g

text \<open>The session's variables: \<open>text\<close> (here \<open>target\<close>: \<open>text\<close> is a keyword of the
  theory language), the list \<open>typed\<close> (here \<open>typed_l\<close>, beside the counter \<open>typed\<close> of
  \<open>Stats\<close>), \<open>stats\<close> (here \<open>stat\<close>), where control is (the main loop, the loop of the
  results panel, or returned) and the value returned.\<close>

datatype phase = Typing | Results | Returned

record sstate =
  target :: pystr
  typed_l :: pystr
  stat :: stats
  phase :: phase
  returned :: "stats option"

definition fresh_session :: "pystr \<Rightarrow> sstate" where
  "fresh_session text =
     \<lparr>target = text, typed_l = [], stat = Stats, phase = Typing, returned = None\<rparr>"

definition finished :: "config \<Rightarrow> sstate \<Rightarrow> real \<Rightarrow> bool" where
  "finished cfg s now =
     (if mode cfg = ''time''
      then started (stat s) \<noteq> None \<and> real_of_int (seconds cfg) \<le> seconds_elapsed (stat s) now
      else length (target s) \<le> length (typed_l s))"

text \<open>The backspace branch (the same statements for the string and the key-code
  form).\<close>

definition backspace :: "sstate \<Rightarrow> sstate option" where
  "backspace s =
     (if typed_l s \<noteq> [] then
        do {
          let last_i = int (length (typed_l s)) - 1;
          a \<leftarrow> py_get (typed_l s) last_i;
          b \<leftarrow> py_get (target s) last_i;
          let st1 = (if a = b then (stat s)\<lparr>correct := max 0 (correct (stat s) - 1)\<rparr>
                     else (stat s)\<lparr>mistakes := max 0 (mistakes (stat s) - 1)\<rparr>);
          let st2 = st1\<lparr>typed := max 0 (typed st1 - 1)\<rparr>;
          Some (s\<lparr>stat := st2, typed_l := butlast (typed_l s)\<rparr>)
        }
      else Some s)"

text \<open>The printable branch in its three statements: start the clock, append and
  compare, extend the text.\<close>

definition begin_timing :: "sstate \<Rightarrow> pychar \<Rightarrow> real \<Rightarrow> sstate" where
  "begin_timing s ch now =
     (if started (stat s) = None \<and> strip [ch] \<noteq> [] then s\<lparr>stat := start (stat s) now\<rparr>
      else s)"

definition accept_char :: "sstate \<Rightarrow> pychar \<Rightarrow> sstate option" where
  "accept_char s ch =
     (if length (typed_l s) < length (target s) then
        do {
          let typed' = typed_l s @ [ch];
          let st1 = (stat s)\<lparr>typed := typed (stat s) + 1\<rparr>;
          target_ch \<leftarrow> py_get (target s) (int (length typed') - 1);
          let st2 = (if ch = target_ch then st1\<lparr>correct := correct st1 + 1\<rparr>
                     else st1\<lparr>mistakes := mistakes st1 + 1\<rparr>);
          Some (s\<lparr>typed_l := typed', stat := st2\<rparr>)
        }
      else Some s)"

definition extend_text :: "'g runtime \<Rightarrow> config \<Rightarrow> sstate \<Rightarrow> 'g input \<Rightarrow> sstate option" where
  "extend_text R cfg s inp =
     (if mode cfg = ''time'' \<and> length (target s) \<le> length (typed_l s)
         \<and> \<not> finished cfg s (t_extend inp) then
        do {
          (ws, _) \<leftarrow> generate R (WordSource R cfg (os_entropy inp)) 50;
          Some (s\<lparr>target := target s @ [sp] @ join [sp] ws\<rparr>)
        }
      else Some s)"

definition printable :: "'g runtime \<Rightarrow> config \<Rightarrow> sstate \<Rightarrow> pychar \<Rightarrow> 'g input \<Rightarrow> sstate option" where
  "printable R cfg s ch inp =
     do {
       s1 \<leftarrow> accept_char (begin_timing s ch (t_start inp)) ch;
       extend_text R cfg s1 inp
     }"

text \<open>The end-of-pass test: when finished, stop the clock and go to the results
  panel.\<close>

definition check_end :: "config \<Rightarrow> sstate \<Rightarrow> 'g input \<Rightarrow> sstate" where
  "check_end cfg s inp =
     (if finished cfg s (t_check inp)
      then s\<lparr>stat := stop (stat s) (t_stop inp), phase := Results\<rparr>
      else s)"

text \<open>One pass of the main \<open>while True\<close> loop.\<close>

definition main_pass :: "'g runtime \<Rightarrow> config \<Rightarrow> sstate \<Rightarrow> 'g input \<Rightarrow> sstate option" where
  "main_pass R cfg s inp =
     (let ch = key inp in
      if ch = Str tab then Some (s\<lparr>phase := Returned, returned := Some Stats\<rparr>)
      else if ch = Str esc \<or> ch = Code KEY_EXIT then
        (let st1 = stop (stat s) (t_stop inp)
         in Some (s\<lparr>stat := st1, phase := Returned, returned := Some st1\<rparr>))
      else if ch = Code KEY_RESIZE then Some s
      else (case ch of
              Str c0 \<Rightarrow>
                (let c = (if c0 = nl \<or> c0 = cr then sp else c0)
                 in if c = del \<or> c = bs then backspace s
                    else if isprintable R c \<or> c = sp then
                      do { s1 \<leftarrow> printable R cfg s c inp; Some (check_end cfg s1 inp) }
                    else Some (check_end cfg s inp))
            | Code n \<Rightarrow>
                if n = KEY_BACKSPACE \<or> n = 127 then
                  do { s1 \<leftarrow> backspace s; Some (check_end cfg s1 inp) }
                else Some (check_end cfg s inp)))"

text \<open>One pass of the results panel's loop: \<open>r\<close> and tab return a fresh \<open>Stats()\<close>,
  \<open>q\<close> and escape return the session's stats; \<open>k.lower()\<close> maps \<open>R\<close> and \<open>Q\<close> there.\<close>

definition lower_is :: "pychar \<Rightarrow> string \<Rightarrow> bool" where
  "lower_is k s = (py s = [k] \<or> py s = [k + 32] \<and> 65 \<le> k \<and> k \<le> 90)"

definition results_pass :: "sstate \<Rightarrow> 'g input \<Rightarrow> sstate" where
  "results_pass s inp =
     (case key inp of
        Str k \<Rightarrow>
          if lower_is k ''r'' then s\<lparr>phase := Returned, returned := Some Stats\<rparr>
          else if lower_is k ''q'' then s\<lparr>phase := Returned, returned := Some (stat s)\<rparr>
          else if k = tab then s\<lparr>phase := Returned, returned := Some Stats\<rparr>
          else if k = esc then s\<lparr>phase := Returned, returned := Some (stat s)\<rparr>
          else s
      | Code n \<Rightarrow>
          if n = KEY_EXIT then s\<lparr>phase := Returned, returned := Some (stat s)\<rparr> else s)"

text \<open>One key read by \<open>typing_session\<close>; once it has returned it reads no key.\<close>

definition step :: "'g runtime \<Rightarrow> config \<Rightarrow> sstate \<Rightarrow> 'g input \<Rightarrow> sstate option" where
  "step R cfg s inp =
     (case phase s of
        Typing \<Rightarrow> main_pass R cfg s inp
      | Results \<Rightarrow> Some (results_pass s inp)
      | Returned \<Rightarrow> Some s)"

fun run :: "'g runtime \<Rightarrow> config \<Rightarrow> sstate \<Rightarrow> 'g input list \<Rightarrow> sstate option" where
  "run R cfg s [] = Some s"
| "run R cfg s (inp # inps) =
     (case step R cfg s inp of
        None \<Rightarrow> None
      | Some s1 \<Rightarrow> run R cfg s1 inps)"

text \<open>\<open>typing_session\<close> from its start: build the text, then read keys.\<close>

definition typing_session ::
  "'g runtime \<Rightarrow> config \<Rightarrow> 'g \<Rightarrow> 'g input list \<Rightarrow> sstate option" where
  "typing_session R cfg entropy inps =
     (case build_text R (WordSource R cfg entropy) cfg of
        None \<Rightarrow> None
      | Some text \<Rightarrow> run R cfg (fresh_session text) inps)"

section \<open>Concrete inputs for the examples\<close>

text \<open>A small linear congruential generator in place of the Mersenne Twister, with
  exact arithmetic in place of the doubles, and a key pressed with the clock standing at
  \<open>t\<close> during the whole pass.\<close>

definition lcg :: "int runtime" where
  "lcg = \<lparr>seeded = (\<lambda>s. s mod 65537),
          randbelow = (\<lambda>g n. (nat (g mod int n), (g * 75 + 74) mod 65537)),
          unicode_printable = (\<lambda>c. False),
          scaled_seconds = (\<lambda>n. Some (Finite (real_of_int n * 5)))\<rparr>"

definition press :: "wch \<Rightarrow> real \<Rightarrow> int input" where
  "press k t = \<lparr>key = k, t_start = t, t_extend = t, t_check = t, t_stop = t, os_entropy = 0\<rparr>"

definition chr :: "string \<Rightarrow> wch" where
  "chr s = Str (hd (py s))"

definition words_cfg :: config where
  "words_cfg = \<lparr>mode = ''words'', seconds = 60, words = 1, numbers = False,
                 punctuation = False, seed = Some 1\<rparr>"

definition time_cfg :: config where
  "time_cfg = \<lparr>mode = ''time'', seconds = 60, words = 50, numbers = False,
                punctuation = False, seed = Some 1\<rparr>"

section \<open>Auxiliary notions for the statements\<close>

text \<open>The candidate line \<open>trial\<close> of the wrap loop, and the lines once a non-empty
  current line is appended (\<open>if line: lines.append(line)\<close>).\<close>

definition trial_of :: "pystr \<Rightarrow> pystr \<Rightarrow> pystr" where
  "trial_of line w = (if line = [] then w else line @ [sp] @ w)"

definition closed_lines :: "pystr list \<Rightarrow> pystr \<Rightarrow> pystr list" where
  "closed_lines lines line = (if line \<noteq> [] then lines @ [line] else lines)"

text \<open>What holds of the cell at position \<open>p\<close> of the coordinate table: it lies on a
  line, on one of the line's characters or just behind its last one, and behind only
  when the line is shorter than the width and the text has a space at \<open>p\<close>.\<close>

definition cell_ok :: "pystr \<Rightarrow> pystr list \<Rightarrow> int \<Rightarrow> nat \<Rightarrow> nat \<times> nat \<Rightarrow> bool" where
  "cell_ok text lines max_text_width p cell =
     (case cell of (li, ci) \<Rightarrow>
        li < length lines \<and>
        (ci < length (lines ! li) \<or>
         (ci = length (lines ! li) \<and> int (length (lines ! li)) < max_text_width \<and>
          p < length text \<and> text ! p = sp)))"

definition table_ok :: "pystr \<Rightarrow> pystr list \<Rightarrow> int \<Rightarrow> (nat \<times> nat) list \<Rightarrow> bool" where
  "table_ok text lines max_text_width tbl =
     (\<forall>p < length tbl. cell_ok text lines max_text_width p (tbl ! p))"

text \<open>The positions of the typed list that agree, and that disagree, with the target;
  and the state of the counters that the session keeps: the typed list is no longer
  than the target, \<open>typed\<close> is its length, \<open>correct\<close> and \<open>mistakes\<close> count its
  agreeing and disagreeing positions.\<close>

definition hits :: "pystr \<Rightarrow> pystr \<Rightarrow> int" where
  "hits ts text = int (length (filter (\<lambda>(a, b). a = b) (zip ts text)))"

definition misses :: "pystr \<Rightarrow> pystr \<Rightarrow> int" where
  "misses ts text = int (length (filter (\<lambda>(a, b). a \<noteq> b) (zip ts text)))"

definition counted :: "sstate \<Rightarrow> bool" where
  "counted s =
     (length (typed_l s) \<le> length (target s) \<and>
      typed (stat s) = int (length (typed_l s)) \<and>
      correct (stat s) = hits (typed_l s) (target s) \<and>
      mistakes (stat s) = misses (typed_l s) (target s))"

text \<open>The words of the extension, said without the code's \<open>WordSource\<close> and \<open>generate\<close>: the
  vocabulary of a configuration, the state of a generator seeded from the configuration
  (from the entropy when it has no seed), the generator's state after \<open>i\<close> draws below
  \<open>k\<close>, and the \<open>i\<close>-th word a generator starting in state \<open>g\<close> draws from a vocabulary.\<close>

definition vocabulary :: "config \<Rightarrow> pystr list" where
  "vocabulary cfg =
     DEFAULT_WORDS @ (if numbers cfg then NUMBERS else []) @
     (if punctuation cfg then PUNCT else [])"

definition config_state :: "'g runtime \<Rightarrow> config \<Rightarrow> 'g \<Rightarrow> 'g" where
  "config_state R cfg entropy = (case seed cfg of Some sd \<Rightarrow> seeded R sd | None \<Rightarrow> entropy)"

fun state_after :: "'g runtime \<Rightarrow> nat \<Rightarrow> 'g \<Rightarrow> nat \<Rightarrow> 'g" where
  "state_after R k g 0 = g"
| "state_after R k g (Suc i) = snd (randbelow R (state_after R k g i) k)"

definition drawn_word :: "'g runtime \<Rightarrow> pystr list \<Rightarrow> 'g \<Rightarrow> nat \<Rightarrow> pystr" where
  "drawn_word R vocab g i =
     vocab ! (fst (randbelow R (state_after R (length vocab) g i) (length vocab))
              mod length vocab)"

text \<open>A run of spaces, and the text that results from writing a run before each line
  and one behind the last.\<close>

definition spaces :: "pystr \<Rightarrow> bool" where
  "spaces g = list_all (\<lambda>c. c = sp) g"

fun weave :: "pystr list \<Rightarrow> pystr list \<Rightarrow> pystr" where
  "weave (g # gs) (l # ls) = g @ l @ weave gs ls"
| "weave gs ls = []"

text \<open>The state of the wrap loop spells the text \<open>t\<close> read so far: \<open>t\<close> is the closed
  lines and the current line, each behind a run of spaces, every run but the first
  satisfying \<open>P\<close>.\<close>

definition woven :: "(pystr \<Rightarrow> bool) \<Rightarrow> pystr \<Rightarrow> pystr list \<Rightarrow> pystr \<Rightarrow> bool" where
  "woven P t L l =
     (\<exists>gaps. length gaps = Suc (length L) \<and> list_all spaces gaps \<and> list_all P (tl gaps) \<and>
             t = weave gaps (L @ [l]))"

section \<open>Wrapped lines fit the width\<close>

lemma hard_split_spec:
  "0 < n \<Longrightarrow> hard_split n L w = (L', r) \<Longrightarrow>
     \<exists>cs. L' = L @ cs \<and> concat cs @ r = w \<and> list_all (\<lambda>c. length c = n) cs \<and>
          length r \<le> n \<and> (cs = [] \<longleftrightarrow> length w \<le> n) \<and> (length w \<le> n \<or> r \<noteq> [])"
proof (induction n L w rule: hard_split.induct)
  case (1 width lines w)
  show ?case
  proof (cases "width < length w \<and> 0 < width")
    case True
    then have "hard_split width (lines @ [take width w]) (drop width w) = (L', r)"
      using "1.prems"(2) by (subst (asm) hard_split.simps) simp
    from "1.IH"[OF True "1.prems"(1) this]
    obtain cs where cs: "L' = (lines @ [take width w]) @ cs" "concat cs @ r = drop width w"
      "list_all (\<lambda>c. length c = width) cs" "length r \<le> width"
      "cs = [] \<longleftrightarrow> length (drop width w) \<le> width"
      "length (drop width w) \<le> width \<or> r \<noteq> []"
      by blast
    have r: "r \<noteq> []"
    proof (cases "length (drop width w) \<le> width")
      case True
      with cs(5) cs(2) have "r = drop width w" by simp
      with \<open>width < length w \<and> 0 < width\<close> show ?thesis by auto
    next
      case False
      with cs(6) show ?thesis by simp
    qed
    have "concat (take width w # cs) @ r = w"
      using cs(2) by simp
    moreover have "list_all (\<lambda>c. length c = width) (take width w # cs)"
      using cs(3) True by simp
    moreover have "L' = lines @ (take width w # cs)"
      using cs(1) by simp
    ultimately show ?thesis
      using cs(4) r True by (intro exI[of _ "take width w # cs"]) simp
  next
    case False
    then have "L' = lines" "r = w"
      using "1.prems"(2) by (subst (asm) hard_split.simps, simp)+
    with False "1.prems"(1) show ?thesis by (intro exI[of _ "[]"]) auto
  qed
qed

lemma wrap_word_cases:
  assumes "0 < n"
  shows "\<exists>cs r. concat cs @ r = w \<and> list_all (\<lambda>c. length c = n) cs \<and> length r \<le> n \<and>
           (cs = [] \<longleftrightarrow> length w \<le> n) \<and> (length w \<le> n \<or> r \<noteq> []) \<and>
           wrap_word n (lines, line) w =
             (if length (trial_of line w) \<le> n then (lines, trial_of line w)
              else (closed_lines lines line @ cs, r))"
proof -
  obtain L' r where h: "hard_split n (closed_lines lines line) w = (L', r)"
    by (cases "hard_split n (closed_lines lines line) w") auto
  from hard_split_spec[OF assms h] obtain cs where cs:
    "L' = closed_lines lines line @ cs" "concat cs @ r = w" "list_all (\<lambda>c. length c = n) cs"
    "length r \<le> n" "cs = [] \<longleftrightarrow> length w \<le> n" "length w \<le> n \<or> r \<noteq> []"
    by blast
  have "wrap_word n (lines, line) w =
          (if length (trial_of line w) \<le> n then (lines, trial_of line w)
           else (closed_lines lines line @ cs, r))"
    using h cs(1) by (simp add: wrap_word_def trial_of_def closed_lines_def Let_def)
  with cs show ?thesis by blast
qed

lemma wrap_word_fits:
  assumes "0 < n" "list_all (\<lambda>l. length l \<le> n) lines" "length line \<le> n"
    "wrap_word n (lines, line) w = (lines', line')"
  shows "list_all (\<lambda>l. length l \<le> n) lines' \<and> length line' \<le> n"
proof -
  from wrap_word_cases[OF assms(1), of w lines line] obtain cs r where
    cs: "list_all (\<lambda>c. length c = n) cs" "length r \<le> n"
    "wrap_word n (lines, line) w =
             (if length (trial_of line w) \<le> n then (lines, trial_of line w)
              else (closed_lines lines line @ cs, r))" by blast
  have "list_all (\<lambda>l. length l \<le> n) cs"
    using cs(1) by (simp add: list_all_iff)
  then show ?thesis
    using assms(2,3,4) cs(2,3) by (auto simp: closed_lines_def split: if_splits)
qed

lemma foldl_wrap_fits:
  "0 < n \<Longrightarrow> list_all (\<lambda>l. length l \<le> n) lines \<Longrightarrow> length line \<le> n \<Longrightarrow>
   foldl (wrap_word n) (lines, line) ws = (lines', line') \<Longrightarrow>
   list_all (\<lambda>l. length l \<le> n) lines' \<and> length line' \<le> n"
proof (induction ws arbitrary: lines line)
  case Nil
  then show ?case by simp
next
  case (Cons w ws)
  obtain L1 l1 where s1: "wrap_word n (lines, line) w = (L1, l1)"
    by (cases "wrap_word n (lines, line) w") auto
  from wrap_word_fits[OF Cons.prems(1,2,3) s1]
  have "list_all (\<lambda>l. length l \<le> n) L1" "length l1 \<le> n" by simp_all
  moreover have "foldl (wrap_word n) (L1, l1) ws = (lines', line')"
    using Cons.prems(4) s1 by simp
  ultimately show ?case using Cons.IH Cons.prems(1) by blast
qed

lemma wrap_lines_le:
  assumes "1 \<le> width"
  shows "list_all (\<lambda>l. int (length l) \<le> width) (wrap_text_to_lines text width)"
proof -
  obtain L l where f: "foldl (wrap_word (nat width)) ([], []) (str_split sp text) = (L, l)"
    by (cases "foldl (wrap_word (nat width)) ([], []) (str_split sp text)") auto
  have "list_all (\<lambda>l. length l \<le> nat width) L \<and> length l \<le> nat width"
    using foldl_wrap_fits[OF _ _ _ f] assms by simp
  then have "list_all (\<lambda>l. int (length l) \<le> width) L" "int (length l) \<le> width"
    using assms by (auto simp: list_all_iff)
  then show ?thesis
    using assms f by (simp add: wrap_text_to_lines_def)
qed

text \<open>
  C8. For every text and every width of at least 1, every line that
  \<open>wrap_text_to_lines\<close> returns is at most \<open>width\<close> long. One pass of the loop keeps
  the candidate line when it fits; otherwise it closes the current line and splits the
  word into chunks of exactly \<open>width\<close> characters, each a line of its own, and the
  remainder (not empty when the word was longer than the width) is the new current line.
\<close>

theorem wrap_line_length:
  assumes "1 \<le> width"
  shows "list_all (\<lambda>l. int (length l) \<le> width) (wrap_text_to_lines text width) \<and>
         (\<exists>chunks rest.
            concat chunks @ rest = w \<and> list_all (\<lambda>c. int (length c) = width) chunks \<and>
            int (length rest) \<le> width \<and> (chunks = [] \<longleftrightarrow> int (length w) \<le> width) \<and>
            (int (length w) \<le> width \<or> rest \<noteq> []) \<and>
            wrap_word (nat width) (lines, line) w =
              (if int (length (if line = [] then w else line @ [sp] @ w)) \<le> width
               then (lines, if line = [] then w else line @ [sp] @ w)
               else ((if line \<noteq> [] then lines @ [line] else lines) @ chunks, rest)))"
proof -
  have n: "0 < nat width" using assms by simp
  from wrap_word_cases[OF n, of w lines line] obtain cs r where
    cs: "concat cs @ r = w" "list_all (\<lambda>c. length c = nat width) cs" "length r \<le> nat width"
      "cs = [] \<longleftrightarrow> length w \<le> nat width" "length w \<le> nat width \<or> r \<noteq> []"
      "wrap_word (nat width) (lines, line) w =
             (if length (trial_of line w) \<le> nat width then (lines, trial_of line w)
              else (closed_lines lines line @ cs, r))" by blast
  have 1: "list_all (\<lambda>c. int (length c) = width) cs"
    using cs(2) assms by (auto simp: list_all_iff)
  have 2: "int (length r) \<le> width" using cs(3) assms by simp
  have 3: "cs = [] \<longleftrightarrow> int (length w) \<le> width" using cs(4) assms by auto
  have 4: "int (length w) \<le> width \<or> r \<noteq> []" using cs(5) assms by auto
  have 5: "wrap_word (nat width) (lines, line) w =
              (if int (length (if line = [] then w else line @ [sp] @ w)) \<le> width
               then (lines, if line = [] then w else line @ [sp] @ w)
               else ((if line \<noteq> [] then lines @ [line] else lines) @ cs, r))"
  proof -
    have le: "\<And>k::nat. k \<le> nat width \<longleftrightarrow> int k \<le> width" using assms by auto
    show ?thesis using cs(6) unfolding trial_of_def closed_lines_def le by simp
  qed
  show ?thesis
    using wrap_lines_le[OF assms] cs(1) 1 2 3 4 5 by blast
qed

theorem wrap_line_length_witness:
  "(1::int) \<le> 4 \<and>
   wrap_text_to_lines (py ''ab cdefghijk l'') 4 = [py ''ab'', py ''cdef'', py ''ghij'', py ''k l''] \<and>
   list_all (\<lambda>l. int (length l) \<le> 4) (wrap_text_to_lines (py ''ab cdefghijk l'') 4) \<and>
   wrap_word (nat 4) ([], py ''ab'') (py ''cdefghijk'') = ([py ''ab'', py ''cdef'', py ''ghij''], py ''k'')"
proof -
  have h: "(1::int) \<le> 4" by simp
  have e: "wrap_text_to_lines (py ''ab cdefghijk l'') 4 = [py ''ab'', py ''cdef'', py ''ghij'', py ''k l'']"
    by (simp add: wrap_text_to_lines_def wrap_word_def py_def sp_def hard_split.simps)
  have w: "wrap_word (nat 4) ([], py ''ab'') (py ''cdefghijk'') = ([py ''ab'', py ''cdef'', py ''ghij''], py ''k'')"
    by (simp add: wrap_word_def py_def sp_def hard_split.simps)
  show ?thesis
    using h e w wrap_line_length[OF h, of "py ''ab cdefghijk l''" "py ''cdefghijk''" "[]" "py ''ab''"]
    by blast
qed

section \<open>The lines spell the text\<close>

lemma str_split_not_Nil: "str_split c t \<noteq> []"
  by (induction t) (auto split: list.splits)

lemma join_Cons: "join [c] (w # ws) = w @ concat (map ((#) c) ws)"
  by (induction ws arbitrary: w) auto

lemma join_snoc: "join [c] (xs @ [x]) = (if xs = [] then x else join [c] xs @ c # x)"
proof (induction xs)
  case Nil
  then show ?case by simp
next
  case (Cons a xs)
  then show ?case by (cases xs) (auto simp: join_Cons)
qed

lemma join_str_split: "join [c] (str_split c t) = t"
proof (induction t)
  case Nil
  then show ?case by simp
next
  case (Cons x t)
  obtain w ws where s: "str_split c t = w # ws"
    using str_split_not_Nil[of c t] by (cases "str_split c t") auto
  show ?case using Cons s by (simp add: join_Cons)
qed

lemma concat_closed_lines: "concat (closed_lines L l) = concat L @ l"
  by (simp add: closed_lines_def)

lemma wrap_word_concat:
  assumes "0 < n" "wrap_word n (L, l) w = (L1, l1)"
  shows "concat L1 @ l1 = concat L @ l @ w \<or> concat L1 @ l1 = concat L @ l @ sp # w"
proof -
  from wrap_word_cases[OF assms(1), of w L l] obtain cs r where
    cs: "concat cs @ r = w"
    "wrap_word n (L, l) w =
       (if length (trial_of l w) \<le> n then (L, trial_of l w) else (closed_lines L l @ cs, r))"
    by blast
  show ?thesis
  proof (cases "length (trial_of l w) \<le> n")
    case True
    then have "L1 = L" "l1 = trial_of l w" using cs(2) assms(2) by simp_all
    then show ?thesis by (simp add: trial_of_def)
  next
    case False
    then have "L1 = closed_lines L l @ cs" "l1 = r" using cs(2) assms(2) by simp_all
    then have "concat L1 @ l1 = concat L @ l @ concat cs @ r" by (simp add: concat_closed_lines)
    then show ?thesis using cs(1) by simp
  qed
qed

lemma foldl_wrap_concat:
  "0 < n \<Longrightarrow> foldl (wrap_word n) (L, l) ws = (L', l') \<Longrightarrow>
   \<exists>r. concat L' @ l' = concat L @ l @ r \<and> subseq r (concat (map ((#) sp) ws)) \<and>
        filter (\<lambda>c. c \<noteq> sp) r = filter (\<lambda>c. c \<noteq> sp) (concat ws)"
proof (induction ws arbitrary: L l)
  case Nil
  then show ?case by simp
next
  case (Cons w ws)
  obtain L1 l1 where s1: "wrap_word n (L, l) w = (L1, l1)"
    by (cases "wrap_word n (L, l) w") auto
  then have "foldl (wrap_word n) (L1, l1) ws = (L', l')" using Cons.prems(2) by simp
  from Cons.IH[OF Cons.prems(1) this] obtain r where
    r: "concat L' @ l' = concat L1 @ l1 @ r" "subseq r (concat (map ((#) sp) ws))"
       "filter (\<lambda>c. c \<noteq> sp) r = filter (\<lambda>c. c \<noteq> sp) (concat ws)" by blast
  from wrap_word_concat[OF Cons.prems(1) s1] show ?case
  proof
    assume a: "concat L1 @ l1 = concat L @ l @ w"
    have "concat L' @ l' = concat L @ l @ (w @ r)" using r(1) a by simp
    moreover have "subseq (w @ r) (concat (map ((#) sp) (w # ws)))"
      using r(2) by (auto intro!: list_emb_Cons list_emb_append_mono)
    moreover have "filter (\<lambda>c. c \<noteq> sp) (w @ r) = filter (\<lambda>c. c \<noteq> sp) (concat (w # ws))"
      using r(3) by simp
    ultimately show ?thesis by blast
  next
    assume a: "concat L1 @ l1 = concat L @ l @ sp # w"
    have "concat L' @ l' = concat L @ l @ (sp # w @ r)" using r(1) a by simp
    moreover have "subseq (sp # w @ r) (concat (map ((#) sp) (w # ws)))"
      using r(2) by (simp add: list_emb_append_mono)
    moreover have "filter (\<lambda>c. c \<noteq> sp) (sp # w @ r) = filter (\<lambda>c. c \<noteq> sp) (concat (w # ws))"
      using r(3) by simp
    ultimately show ?thesis by blast
  qed
qed

lemma filter_concat_sp:
  "filter (\<lambda>c. c \<noteq> sp) (concat (map ((#) sp) ws)) = filter (\<lambda>c. c \<noteq> sp) (concat ws)"
  by (induction ws) auto

lemma wrap_is_closed_lines:
  "0 < width \<Longrightarrow> foldl (wrap_word (nat width)) ([], []) (str_split sp text) = (L, l) \<Longrightarrow>
   wrap_text_to_lines text width = closed_lines L l"
  by (simp add: wrap_text_to_lines_def closed_lines_def)

lemma wrap_concat:
  assumes "1 \<le> width"
  shows "subseq (concat (wrap_text_to_lines text width)) text \<and>
         filter (\<lambda>c. c \<noteq> sp) (concat (wrap_text_to_lines text width)) = filter (\<lambda>c. c \<noteq> sp) text"
proof -
  obtain w0 ws where sp: "str_split sp text = w0 # ws"
    using str_split_not_Nil[of sp "text"] by (cases "str_split sp text") auto
  have t: "text = w0 @ concat (map ((#) sp) ws)"
    using join_str_split[of sp "text"] sp by (simp add: join_Cons)
  have n: "0 < nat width" using assms by simp
  obtain L0 l0 where s0: "wrap_word (nat width) ([], []) w0 = (L0, l0)"
    by (cases "wrap_word (nat width) ([], []) w0") auto
  have c0: "concat L0 @ l0 = w0"
  proof -
    from wrap_word_cases[OF n, of w0 "[]" "[]"] obtain cs r where
      cs: "concat cs @ r = w0"
      "wrap_word (nat width) ([], []) w0 =
         (if length (trial_of [] w0) \<le> nat width then ([], trial_of [] w0) else (closed_lines [] [] @ cs, r))"
      by blast
    show ?thesis using cs s0 by (auto simp: trial_of_def closed_lines_def split: if_splits)
  qed
  obtain L l where f: "foldl (wrap_word (nat width)) (L0, l0) ws = (L, l)"
    by (cases "foldl (wrap_word (nat width)) (L0, l0) ws") auto
  from foldl_wrap_concat[OF n f] obtain r where
    r: "concat L @ l = concat L0 @ l0 @ r" "subseq r (concat (map ((#) sp) ws))"
       "filter (\<lambda>c. c \<noteq> sp) r = filter (\<lambda>c. c \<noteq> sp) (concat ws)" by blast
  have "foldl (wrap_word (nat width)) ([], []) (str_split sp text) = (L, l)"
    using sp s0 f by simp
  then have w: "wrap_text_to_lines text width = closed_lines L l"
    using wrap_is_closed_lines assms by simp
  have cc: "concat (wrap_text_to_lines text width) = w0 @ r"
    using w r(1) c0 by (simp add: concat_closed_lines)
  have 1: "subseq (w0 @ r) text"
    by (subst t) (simp add: r(2) list_emb_append_mono)
  have 2: "filter (\<lambda>c. c \<noteq> sp) (w0 @ r) = filter (\<lambda>c. c \<noteq> sp) text"
    by (subst t) (simp add: r(3) filter_concat_sp)
  show ?thesis using cc 1 2 by simp
qed

lemma wrap_word_short:
  assumes "0 < n" "length w \<le> n"
  shows "wrap_word n (L, l) w =
           (if length (trial_of l w) \<le> n then (L, trial_of l w) else (closed_lines L l, w))"
proof -
  from wrap_word_cases[OF assms(1), of w L l] obtain cs r where
    cs: "concat cs @ r = w" "cs = [] \<longleftrightarrow> length w \<le> n"
    "wrap_word n (L, l) w =
       (if length (trial_of l w) \<le> n then (L, trial_of l w) else (closed_lines L l @ cs, r))"
    by blast
  have "cs = []" using cs(2) assms(2) by simp
  then have "r = w" using cs(1) by simp
  with \<open>cs = []\<close> cs(3) show ?thesis by simp
qed

lemma wrap_word_join:
  assumes "0 < n" "length w \<le> n" "wrap_word n (L, l) w = (L1, l1)"
  shows "(closed_lines L l = [] \<and> join [sp] (closed_lines L1 l1) = w \<and> (closed_lines L1 l1 = [] \<longleftrightarrow> w = [])) \<or>
         (closed_lines L l \<noteq> [] \<and> closed_lines L1 l1 \<noteq> [] \<and>
            (join [sp] (closed_lines L1 l1) = join [sp] (closed_lines L l) \<or>
             join [sp] (closed_lines L1 l1) = join [sp] (closed_lines L l) @ sp # w))"
proof -
  note ww = wrap_word_short[OF assms(1,2), of L l]
  show ?thesis
  proof (cases "l = []")
    case True
    then have "L1 = L" "l1 = w" using ww assms(2,3) by (simp_all add: trial_of_def)
    then show ?thesis using True
      by (cases "L = []") (auto simp: closed_lines_def join_snoc)
  next
    case False
    show ?thesis
    proof (cases "length (trial_of l w) \<le> n")
      case True
      then have "L1 = L" "l1 = l @ sp # w" using ww assms(3) False by (simp_all add: trial_of_def)
      then show ?thesis using False by (auto simp: closed_lines_def join_snoc)
    next
      case no: False
      then have "L1 = closed_lines L l" "l1 = w" using ww assms(3) by simp_all
      moreover have "join [sp] ((L @ [l]) @ [w]) = join [sp] (L @ [l]) @ sp # w"
        by (subst join_snoc) simp
      ultimately show ?thesis using False by (auto simp: closed_lines_def)
    qed
  qed
qed

lemma foldl_wrap_join:
  "0 < n \<Longrightarrow> list_all (\<lambda>w. length w \<le> n) ws \<Longrightarrow>
   foldl (wrap_word n) (L, l) ws = (L', l') \<Longrightarrow>
   \<exists>r. join [sp] (closed_lines L' l') = join [sp] (closed_lines L l) @ r \<and>
        (if closed_lines L l = [] then subseq r (join [sp] ws)
         else subseq r (concat (map ((#) sp) ws)))"
proof (induction ws arbitrary: L l)
  case Nil
  then show ?case by simp
next
  case (Cons w ws)
  obtain L1 l1 where s1: "wrap_word n (L, l) w = (L1, l1)"
    by (cases "wrap_word n (L, l) w") auto
  have lw: "length w \<le> n" and lws: "list_all (\<lambda>w. length w \<le> n) ws"
    using Cons.prems(2) by simp_all
  have "foldl (wrap_word n) (L1, l1) ws = (L', l')" using Cons.prems(3) s1 by simp
  from Cons.IH[OF Cons.prems(1) lws this] obtain r where
    r: "join [sp] (closed_lines L' l') = join [sp] (closed_lines L1 l1) @ r"
       "if closed_lines L1 l1 = [] then subseq r (join [sp] ws)
        else subseq r (concat (map ((#) sp) ws))" by blast
  have jc: "join [sp] (w # ws) = w @ concat (map ((#) sp) ws)" by (rule join_Cons)
  from wrap_word_join[OF Cons.prems(1) lw s1] show ?case
  proof
    assume a: "closed_lines L l = [] \<and> join [sp] (closed_lines L1 l1) = w \<and> (closed_lines L1 l1 = [] \<longleftrightarrow> w = [])"
    show ?thesis
    proof (cases "w = []")
      case True
      then have e: "closed_lines L1 l1 = []" using a by simp
      then have "subseq r (join [sp] ws)" using r(2) by simp
      moreover have "subseq (join [sp] ws) (concat (map ((#) sp) ws))"
        by (cases ws) (auto simp: join_Cons)
      ultimately have "subseq r (join [sp] (w # ws))"
        using True jc by (metis append_Nil subseq_order.trans)
      moreover have "join [sp] (closed_lines L' l') = join [sp] (closed_lines L l) @ r"
        using r(1) a e by simp
      ultimately show ?thesis using a by auto
    next
      case False
      then have "closed_lines L1 l1 \<noteq> []" using a by simp
      then have "subseq r (concat (map ((#) sp) ws))" using r(2) by simp
      then have "subseq (w @ r) (join [sp] (w # ws))"
        unfolding jc by (simp add: list_emb_append_mono)
      moreover have "join [sp] (closed_lines L' l') = join [sp] (closed_lines L l) @ (w @ r)"
        using r(1) a by simp
      ultimately show ?thesis using a by (intro exI[of _ "w @ r"]) simp
    qed
  next
    assume a: "closed_lines L l \<noteq> [] \<and> closed_lines L1 l1 \<noteq> [] \<and>
            (join [sp] (closed_lines L1 l1) = join [sp] (closed_lines L l) \<or>
             join [sp] (closed_lines L1 l1) = join [sp] (closed_lines L l) @ sp # w)"
    then have sr: "subseq r (concat (map ((#) sp) ws))" using r(2) by simp
    from a have "join [sp] (closed_lines L1 l1) = join [sp] (closed_lines L l) \<or>
             join [sp] (closed_lines L1 l1) = join [sp] (closed_lines L l) @ sp # w" by simp
    then show ?thesis
    proof
      assume "join [sp] (closed_lines L1 l1) = join [sp] (closed_lines L l)"
      then have "join [sp] (closed_lines L' l') = join [sp] (closed_lines L l) @ r" using r(1) by simp
      moreover have "subseq r (concat (map ((#) sp) (w # ws)))"
        using sr by (simp add: list_emb_Cons list_emb_append2)
      ultimately show ?thesis using a by auto
    next
      assume "join [sp] (closed_lines L1 l1) = join [sp] (closed_lines L l) @ sp # w"
      then have "join [sp] (closed_lines L' l') = join [sp] (closed_lines L l) @ (sp # w @ r)"
        using r(1) by simp
      moreover have "subseq (sp # w @ r) (concat (map ((#) sp) (w # ws)))"
        using sr by (simp add: list_emb_append_mono)
      ultimately show ?thesis using a by (intro exI[of _ "sp # w @ r"]) simp
    qed
  qed
qed

lemma wrap_join:
  assumes "1 \<le> width" "list_all (\<lambda>w. int (length w) \<le> width) (str_split sp text)"
  shows "subseq (join [sp] (wrap_text_to_lines text width)) text"
proof -
  have n: "0 < nat width" using assms by simp
  have ws: "list_all (\<lambda>w. length w \<le> nat width) (str_split sp text)"
    using assms by (auto simp: list_all_iff)
  obtain L l where f: "foldl (wrap_word (nat width)) ([], []) (str_split sp text) = (L, l)"
    by (cases "foldl (wrap_word (nat width)) ([], []) (str_split sp text)") auto
  from foldl_wrap_join[OF n ws f] obtain r where
    r: "join [sp] (closed_lines L l) = join [sp] (closed_lines [] []) @ r"
       "subseq r (join [sp] (str_split sp text))"
    by (auto simp: closed_lines_def)
  have "wrap_text_to_lines text width = closed_lines L l"
    using wrap_is_closed_lines f assms(1) by simp
  then show ?thesis using r by (simp add: closed_lines_def join_str_split)
qed


lemma weave_append:
  "length gs = length ls \<Longrightarrow> weave (gs @ gs') (ls @ ls') = weave gs ls @ weave gs' ls'"
proof (induction gs arbitrary: ls)
  case Nil
  then show ?case by simp
next
  case (Cons g gs)
  then show ?case by (cases ls) auto
qed

lemma weave_replicate: "weave (replicate (length cs) []) cs = concat cs"
  by (induction cs) simp_all

lemma spaces_simps [simp]: "spaces []" "spaces [sp]" "spaces (g @ h) = (spaces g \<and> spaces h)"
  by (simp_all add: spaces_def)

lemma list_all_replicate: "P x \<Longrightarrow> list_all P (replicate k x)"
  by (induction k) simp_all

lemma tl_snoc: "tl (G @ [h]) = (if G = [] then [] else tl G @ [h])"
  by (cases G) simp_all

lemma woven_new_lines:
  assumes "length G = length L" "list_all spaces G" "spaces h"
    and "list_all P (tl (G @ [h]))" and "cs = [] \<or> P []"
  shows "woven P (weave G L @ h @ concat cs @ r) (L @ cs) r"
proof -
  let ?gaps = "(G @ [h]) @ replicate (length cs) []"
  let ?new = "cs @ [r]"
  have w: "weave (h # replicate (length cs) []) ?new = h @ concat cs @ r"
  proof (cases cs)
    case Nil
    then show ?thesis by simp
  next
    case (Cons c cs')
    have "weave (replicate (length (cs' @ [r])) []) (cs' @ [r]) = concat (cs' @ [r])"
      by (rule weave_replicate)
    then show ?thesis using Cons by simp
  qed
  have "weave (G @ (h # replicate (length cs) [])) (L @ ?new) = weave G L @ h @ concat cs @ r"
    using assms(1) w by (simp only: weave_append)
  then have 1: "weave ?gaps ((L @ cs) @ [r]) = weave G L @ h @ concat cs @ r" by simp
  have 2: "length ?gaps = Suc (length (L @ cs))" using assms(1) by simp
  have 3: "list_all spaces ?gaps"
    using assms(2,3) by (simp add: list_all_replicate)
  have 4: "list_all P (tl ?gaps)"
  proof (cases "cs = []")
    case True
    then show ?thesis using assms(4) by simp
  next
    case False
    then have "P []" using assms(5) by simp
    then have "list_all P (replicate (length cs) [])" by (rule list_all_replicate)
    moreover have "tl ?gaps = tl (G @ [h]) @ replicate (length cs) []" by (cases G) simp_all
    ultimately show ?thesis using assms(4) by simp
  qed
  show ?thesis unfolding woven_def using 1 2 3 4 by metis
qed

lemma woven_split:
  assumes "woven P t L l"
  obtains G g where "length G = length L" "list_all spaces G" "spaces g"
    "list_all P (tl (G @ [g]))" "t = weave G L @ g @ l"
proof -
  from assms obtain gaps where gaps: "length gaps = Suc (length L)" "list_all spaces gaps"
    "list_all P (tl gaps)" "t = weave gaps (L @ [l])" unfolding woven_def by blast
  then obtain G g where G: "gaps = G @ [g]"
    by (cases gaps rule: rev_cases) auto
  have "length G = length L" using gaps(1) G by simp
  moreover have "list_all spaces G" "spaces g" using gaps(2) G by simp_all
  moreover have "list_all P (tl (G @ [g]))" using gaps(3) G by simp
  moreover have "t = weave G L @ g @ l"
    using gaps(4) G \<open>length G = length L\<close> by (simp add: weave_append)
  ultimately show ?thesis using that by blast
qed

lemma tl_snoc_all:
  "list_all P (tl (G @ [g])) \<Longrightarrow> P h \<Longrightarrow> list_all P (tl (G @ [h]))"
  by (cases G) simp_all

lemma tl_snoc2_all:
  "list_all P (tl (G @ [g])) \<Longrightarrow> P h \<Longrightarrow> list_all P (tl ((G @ [g]) @ [h]))"
  by (cases G) simp_all

lemma wrap_word_woven:
  assumes "0 < n" "woven P t L l" "wrap_word n (L, l) w = (L1, l1)"
    and "P [sp]" and "\<And>g. P (g @ [sp])" and "length w \<le> n \<or> P []"
  shows "woven P (t @ sp # w) L1 l1"
proof -
  from wrap_word_cases[OF assms(1), of w L l] obtain cs r where
    cs: "concat cs @ r = w" "cs = [] \<longleftrightarrow> length w \<le> n"
    "wrap_word n (L, l) w =
       (if length (trial_of l w) \<le> n then (L, trial_of l w) else (closed_lines L l @ cs, r))"
    by blast
  have csP: "cs = [] \<or> P []" using cs(2) assms(6) by blast
  from assms(2) obtain G g where G: "length G = length L" "list_all spaces G" "spaces g"
    "list_all P (tl (G @ [g]))" "t = weave G L @ g @ l" by (rule woven_split)
  have Gs: "list_all P (tl (G @ [g @ [sp]]))"
    by (rule tl_snoc_all[OF G(4) assms(5)])
  show ?thesis
  proof (cases "length (trial_of l w) \<le> n")
    case True
    then have e: "L1 = L" "l1 = trial_of l w" using cs(3) assms(3) by simp_all
    show ?thesis
    proof (cases "l = []")
      case True
      have "woven P (weave G L @ (g @ [sp]) @ concat [] @ w) (L @ []) w"
        by (rule woven_new_lines) (use G Gs in simp_all)
      then show ?thesis using e True G(5) by (simp add: trial_of_def)
    next
      case False
      have "woven P (weave G L @ g @ concat [] @ (l @ sp # w)) (L @ []) (l @ sp # w)"
        by (rule woven_new_lines) (use G in simp_all)
      then show ?thesis using e False G(5) by (simp add: trial_of_def)
    qed
  next
    case False
    then have e: "L1 = closed_lines L l @ cs" "l1 = r" using cs(3) assms(3) by simp_all
    show ?thesis
    proof (cases "l = []")
      case True
      have "woven P (weave G L @ (g @ [sp]) @ concat cs @ r) (L @ cs) r"
        by (rule woven_new_lines) (use G Gs csP in simp_all)
      then show ?thesis using e True G(5) cs(1) by (simp add: closed_lines_def)
    next
      case nonempty: False
      have a: "length (G @ [g]) = length (L @ [l])" using G(1) by simp
      have b: "list_all spaces (G @ [g])" using G(2,3) by simp
      have c: "list_all P (tl ((G @ [g]) @ [[sp]]))"
        by (rule tl_snoc2_all[OF G(4) assms(4)])
      have "woven P (weave (G @ [g]) (L @ [l]) @ [sp] @ concat cs @ r) ((L @ [l]) @ cs) r"
        by (rule woven_new_lines[OF a b _ c csP]) simp
      moreover have "weave (G @ [g]) (L @ [l]) = weave G L @ g @ l"
        using G(1) by (simp add: weave_append)
      ultimately show ?thesis using e nonempty G(5) cs(1) by (simp add: closed_lines_def)
    qed
  qed
qed

lemma foldl_wrap_woven:
  assumes "0 < n" "P [sp]" "\<And>g. P (g @ [sp])"
  shows "woven P t L l \<Longrightarrow> list_all (\<lambda>w. length w \<le> n \<or> P []) ws \<Longrightarrow>
         foldl (wrap_word n) (L, l) ws = (L', l') \<Longrightarrow>
         woven P (t @ concat (map ((#) sp) ws)) L' l'"
proof (induction ws arbitrary: t L l)
  case Nil
  then show ?case by simp
next
  case (Cons w ws)
  obtain L1 l1 where s1: "wrap_word n (L, l) w = (L1, l1)"
    by (cases "wrap_word n (L, l) w") auto
  have f: "foldl (wrap_word n) (L1, l1) ws = (L', l')" using Cons.prems(3) s1 by simp
  have w: "length w \<le> n \<or> P []" and ws: "list_all (\<lambda>w. length w \<le> n \<or> P []) ws"
    using Cons.prems(2) by simp_all
  have "woven P (t @ sp # w) L1 l1"
    by (rule wrap_word_woven[where P = P, OF assms(1) Cons.prems(1) s1 assms(2,3) w])
  from Cons.IH[OF this ws f] show ?case by simp
qed

lemma first_word_woven:
  assumes "0 < n" "wrap_word n ([], []) w0 = (L0, l0)" "length w0 \<le> n \<or> P []"
  shows "woven P w0 L0 l0"
proof -
  from wrap_word_cases[OF assms(1), of w0 "[]" "[]"] obtain cs r where
    cs: "concat cs @ r = w0" "cs = [] \<longleftrightarrow> length w0 \<le> n"
    "wrap_word n ([], []) w0 =
       (if length (trial_of [] w0) \<le> n then ([], trial_of [] w0) else (closed_lines [] [] @ cs, r))"
    by blast
  have csP: "cs = [] \<or> P []" using cs(2) assms(3) by blast
  have a: "woven P (weave [] [] @ [] @ concat [] @ w0) ([] @ []) w0"
    by (rule woven_new_lines) simp_all
  have b: "woven P (weave [] [] @ [] @ concat cs @ r) ([] @ cs) r"
    by (rule woven_new_lines) (use csP in simp_all)
  show ?thesis
  proof (cases "length (trial_of [] w0) \<le> n")
    case True
    then show ?thesis using a cs(3) assms(2) by (simp add: trial_of_def)
  next
    case False
    then show ?thesis using b cs assms(2) by (simp add: closed_lines_def)
  qed
qed

lemma wrap_woven:
  assumes "1 \<le> width" "P [sp]" "\<And>g. P (g @ [sp])"
    and "list_all (\<lambda>w. length w \<le> nat width \<or> P []) (str_split sp text)"
  shows "\<exists>gaps rest. length gaps = length (wrap_text_to_lines text width) \<and>
           list_all spaces gaps \<and> spaces rest \<and> list_all P (tl gaps) \<and>
           text = weave gaps (wrap_text_to_lines text width) @ rest"
proof -
  obtain w0 ws where sp: "str_split sp text = w0 # ws"
    using str_split_not_Nil[of sp "text"] by (cases "str_split sp text") auto
  have t: "text = w0 @ concat (map ((#) sp) ws)"
    using join_str_split[of sp "text"] sp by (simp add: join_Cons)
  have n: "0 < nat width" using assms by simp
  have w0: "length w0 \<le> nat width \<or> P []"
    and ws: "list_all (\<lambda>w. length w \<le> nat width \<or> P []) ws"
    using assms(4) sp by simp_all
  obtain L0 l0 where s0: "wrap_word (nat width) ([], []) w0 = (L0, l0)"
    by (cases "wrap_word (nat width) ([], []) w0") auto
  obtain L l where f: "foldl (wrap_word (nat width)) (L0, l0) ws = (L, l)"
    by (cases "foldl (wrap_word (nat width)) (L0, l0) ws") auto
  have "woven P (w0 @ concat (map ((#) sp) ws)) L l"
  proof -
    have fw: "woven P w0 L0 l0" by (rule first_word_woven[where P = P, OF n s0 w0])
    show ?thesis
      by (rule foldl_wrap_woven[where P = P, OF n assms(2,3) fw ws f])
  qed
  then have "woven P text L l" using t by simp
  then obtain G g where G: "length G = length L" "list_all spaces G" "spaces g"
    "list_all P (tl (G @ [g]))" "text = weave G L @ g @ l" by (rule woven_split)
  have "foldl (wrap_word (nat width)) ([], []) (str_split sp text) = (L, l)"
    using sp s0 f by simp
  then have w: "wrap_text_to_lines text width = closed_lines L l"
    using wrap_is_closed_lines assms by simp
  show ?thesis
  proof (cases "l = []")
    case True
    then have e: "wrap_text_to_lines text width = L" using w by (simp add: closed_lines_def)
    have "list_all P (tl G)" using G(4) by (cases G) simp_all
    then show ?thesis using G True e by auto
  next
    case False
    then have e: "wrap_text_to_lines text width = L @ [l]" using w by (simp add: closed_lines_def)
    have "weave (G @ [g]) (L @ [l]) = weave G L @ g @ l"
      using G(1) by (simp add: weave_append)
    then have "text = weave (G @ [g]) (wrap_text_to_lines text width) @ []"
      using G(5) e by simp
    moreover have "length (G @ [g]) = length (wrap_text_to_lines text width)"
      using G(1) e by simp
    moreover have "list_all spaces (G @ [g])" using G(2,3) by simp
    ultimately show ?thesis using G(4) by (metis spaces_simps(1))
  qed
qed

lemma wrap_word_join_exact:
  assumes "0 < n" "length w \<le> n" "w \<noteq> []" "wrap_word n (L, l) w = (L1, l1)"
  shows "closed_lines L1 l1 \<noteq> [] \<and>
         join [sp] (closed_lines L1 l1) =
           (if closed_lines L l = [] then w else join [sp] (closed_lines L l) @ sp # w)"
proof -
  note ww = wrap_word_short[OF assms(1,2), of L l]
  show ?thesis
  proof (cases "l = []")
    case True
    then have "L1 = L" "l1 = w" using ww assms(2,4) by (simp_all add: trial_of_def)
    then show ?thesis using True assms(3)
      by (cases "L = []") (auto simp: closed_lines_def join_snoc)
  next
    case False
    show ?thesis
    proof (cases "length (trial_of l w) \<le> n")
      case True
      then have "L1 = L" "l1 = l @ sp # w" using ww assms(4) False by (simp_all add: trial_of_def)
      then show ?thesis using False by (auto simp: closed_lines_def join_snoc)
    next
      case no: False
      then have "L1 = closed_lines L l" "l1 = w" using ww assms(4) by simp_all
      moreover have "join [sp] ((L @ [l]) @ [w]) = join [sp] (L @ [l]) @ sp # w"
        by (subst join_snoc) simp
      ultimately show ?thesis using False assms(3) by (auto simp: closed_lines_def)
    qed
  qed
qed

lemma foldl_wrap_join_exact:
  "0 < n \<Longrightarrow> list_all (\<lambda>w. w \<noteq> [] \<and> length w \<le> n) ws \<Longrightarrow> closed_lines L l \<noteq> [] \<Longrightarrow>
   foldl (wrap_word n) (L, l) ws = (L', l') \<Longrightarrow>
   join [sp] (closed_lines L' l') = join [sp] (closed_lines L l) @ concat (map ((#) sp) ws)"
proof (induction ws arbitrary: L l)
  case Nil
  then show ?case by simp
next
  case (Cons w ws)
  obtain L1 l1 where s1: "wrap_word n (L, l) w = (L1, l1)"
    by (cases "wrap_word n (L, l) w") auto
  have w: "w \<noteq> []" "length w \<le> n" and ws: "list_all (\<lambda>w. w \<noteq> [] \<and> length w \<le> n) ws"
    using Cons.prems(2) by simp_all
  have f: "foldl (wrap_word n) (L1, l1) ws = (L', l')" using Cons.prems(4) s1 by simp
  from wrap_word_join_exact[OF Cons.prems(1) w(2) w(1) s1] Cons.prems(3)
  have a: "closed_lines L1 l1 \<noteq> []"
    "join [sp] (closed_lines L1 l1) = join [sp] (closed_lines L l) @ sp # w" by simp_all
  from Cons.IH[OF Cons.prems(1) ws a(1) f] a(2) show ?case by simp
qed

lemma wrap_join_exact:
  assumes "1 \<le> width"
    and "list_all (\<lambda>w. w \<noteq> [] \<and> int (length w) \<le> width) (str_split sp text)"
  shows "join [sp] (wrap_text_to_lines text width) = text"
proof -
  obtain w0 ws where sp: "str_split sp text = w0 # ws"
    using str_split_not_Nil[of sp "text"] by (cases "str_split sp text") auto
  have t: "text = w0 @ concat (map ((#) sp) ws)"
    using join_str_split[of sp "text"] sp by (simp add: join_Cons)
  have n: "0 < nat width" using assms by simp
  have all: "list_all (\<lambda>w. w \<noteq> [] \<and> length w \<le> nat width) (w0 # ws)"
    using assms sp by (auto simp: list_all_iff)
  then have w0: "w0 \<noteq> []" "length w0 \<le> nat width"
    and ws: "list_all (\<lambda>w. w \<noteq> [] \<and> length w \<le> nat width) ws" by simp_all
  obtain L0 l0 where s0: "wrap_word (nat width) ([], []) w0 = (L0, l0)"
    by (cases "wrap_word (nat width) ([], []) w0") auto
  from wrap_word_join_exact[OF n w0(2) w0(1) s0]
  have a: "closed_lines L0 l0 \<noteq> []" "join [sp] (closed_lines L0 l0) = w0"
    by (simp_all add: closed_lines_def)
  obtain L l where f: "foldl (wrap_word (nat width)) (L0, l0) ws = (L, l)"
    by (cases "foldl (wrap_word (nat width)) (L0, l0) ws") auto
  have "foldl (wrap_word (nat width)) ([], []) (str_split sp text) = (L, l)"
    using sp s0 f by simp
  then have w: "wrap_text_to_lines text width = closed_lines L l"
    using wrap_is_closed_lines assms by simp
  from foldl_wrap_join_exact[OF n ws a(1) f] a(2) t w show ?thesis by simp
qed

text \<open>
  C4, as amended. For every text and every width of at least 1, the text is the lines in
  order, each behind a run of spaces (possibly empty) and with a run of spaces at the
  end: wrapping leaves out spaces only, and only at the ends of lines; no character is
  invented and none is duplicated. When no space-delimited word is longer than the
  width, every run between two lines holds at least one space, so the lines joined
  again with single spaces are the text with spaces left out at those places only; and
  when in addition no word is empty (the text is single-spaced, with no space at either
  end) the lines joined with single spaces are the text itself.
\<close>

theorem wrap_rejoin:
  assumes "1 \<le> width"
  shows "(\<exists>gaps rest. length gaps = length (wrap_text_to_lines text width) \<and>
            list_all spaces gaps \<and> spaces rest \<and>
            text = weave gaps (wrap_text_to_lines text width) @ rest) \<and>
         subseq (concat (wrap_text_to_lines text width)) text \<and>
         filter (\<lambda>c. c \<noteq> sp) (concat (wrap_text_to_lines text width)) = filter (\<lambda>c. c \<noteq> sp) text \<and>
         (list_all (\<lambda>w. int (length w) \<le> width) (str_split sp text) \<longrightarrow>
            subseq (join [sp] (wrap_text_to_lines text width)) text \<and>
            (\<exists>gaps rest. length gaps = length (wrap_text_to_lines text width) \<and>
               list_all spaces gaps \<and> spaces rest \<and> list_all (\<lambda>g. g \<noteq> []) (tl gaps) \<and>
               text = weave gaps (wrap_text_to_lines text width) @ rest)) \<and>
         (list_all (\<lambda>w. w \<noteq> [] \<and> int (length w) \<le> width) (str_split sp text) \<longrightarrow>
            join [sp] (wrap_text_to_lines text width) = text)"
proof -
  have "\<exists>gaps rest. length gaps = length (wrap_text_to_lines text width) \<and>
           list_all spaces gaps \<and> spaces rest \<and> list_all (\<lambda>g. True) (tl gaps) \<and>
           text = weave gaps (wrap_text_to_lines text width) @ rest"
    by (rule wrap_woven[where P = "\<lambda>g. True", OF assms]) (simp_all add: list_all_iff)
  then have 1: "\<exists>gaps rest. length gaps = length (wrap_text_to_lines text width) \<and>
            list_all spaces gaps \<and> spaces rest \<and>
            text = weave gaps (wrap_text_to_lines text width) @ rest"
    by blast
  have 2: "list_all (\<lambda>w. int (length w) \<le> width) (str_split sp text) \<longrightarrow>
            (\<exists>gaps rest. length gaps = length (wrap_text_to_lines text width) \<and>
               list_all spaces gaps \<and> spaces rest \<and> list_all (\<lambda>g. g \<noteq> []) (tl gaps) \<and>
               text = weave gaps (wrap_text_to_lines text width) @ rest)"
  proof
    assume a: "list_all (\<lambda>w. int (length w) \<le> width) (str_split sp text)"
    have b: "list_all (\<lambda>w. length w \<le> nat width \<or> [] \<noteq> ([]::pystr)) (str_split sp text)"
      using a assms by (auto simp: list_all_iff)
    show "\<exists>gaps rest. length gaps = length (wrap_text_to_lines text width) \<and>
               list_all spaces gaps \<and> spaces rest \<and> list_all (\<lambda>g. g \<noteq> []) (tl gaps) \<and>
               text = weave gaps (wrap_text_to_lines text width) @ rest"
      by (rule wrap_woven[where P = "\<lambda>g. g \<noteq> []", OF assms _ _ b]) simp_all
  qed
  show ?thesis
    using 1 2 wrap_concat[OF assms] wrap_join[OF assms] wrap_join_exact[OF assms] by blast
qed

text \<open>
  C4 as stated fails where a word is split: joining the two lines of \<open>abcdefgh\<close> at
  width 4 with a single space gives \<open>abcd efgh\<close>, whose space the text does not have.
\<close>

theorem wrap_rejoin_invents_space:
  "join [sp] (wrap_text_to_lines (py ''abcdefgh'') 4) = py ''abcd efgh'' \<and>
   \<not> subseq (join [sp] (wrap_text_to_lines (py ''abcdefgh'') 4)) (py ''abcdefgh'')"
proof -
  have e: "join [sp] (wrap_text_to_lines (py ''abcdefgh'') 4) = py ''abcd efgh''"
    by (simp add: wrap_text_to_lines_def wrap_word_def py_def sp_def hard_split.simps)
  have "\<not> subseq (py ''abcd efgh'') (py ''abcdefgh'')"
    by (simp add: py_def)
  with e show ?thesis by simp
qed

theorem wrap_rejoin_witness:
  "(1::int) \<le> 4 \<and>
   list_all (\<lambda>w. w \<noteq> [] \<and> int (length w) \<le> 4) (str_split sp (py ''ab cd efgh'')) \<and>
   wrap_text_to_lines (py ''ab cd efgh'') 4 = [py ''ab'', py ''cd'', py ''efgh''] \<and>
   join [sp] (wrap_text_to_lines (py ''ab cd efgh'') 4) = py ''ab cd efgh'' \<and>
   subseq (join [sp] (wrap_text_to_lines (py ''ab cd efgh'') 4)) (py ''ab cd efgh'') \<and>
   filter (\<lambda>c. c \<noteq> sp) (concat (wrap_text_to_lines (py ''ab cd efgh'') 4)) = py ''abcdefgh'' \<and>
   py ''ab cd efgh'' = weave [[], [sp], [sp]] (wrap_text_to_lines (py ''ab cd efgh'') 4) @ []"
proof -
  have h: "(1::int) \<le> 4" by simp
  have e: "wrap_text_to_lines (py ''ab cd efgh'') 4 = [py ''ab'', py ''cd'', py ''efgh'']"
    by (simp add: wrap_text_to_lines_def wrap_word_def py_def sp_def hard_split.simps)
  have s: "list_all (\<lambda>w. w \<noteq> [] \<and> int (length w) \<le> 4) (str_split sp (py ''ab cd efgh''))"
    by (simp add: py_def sp_def)
  have s': "list_all (\<lambda>w. int (length w) \<le> 4) (str_split sp (py ''ab cd efgh''))"
    by (simp add: py_def sp_def)
  have f: "filter (\<lambda>c. c \<noteq> sp) (py ''ab cd efgh'') = py ''abcdefgh''"
    by (simp add: py_def sp_def)
  have w: "py ''ab cd efgh'' = weave [[], [sp], [sp]] [py ''ab'', py ''cd'', py ''efgh''] @ []"
    by (simp add: py_def sp_def)
  note t = wrap_rejoin[OF h, of "py ''ab cd efgh''"]
  have j: "join [sp] (wrap_text_to_lines (py ''ab cd efgh'') 4) = py ''ab cd efgh''"
    using t s by blast
  have q: "subseq (join [sp] (wrap_text_to_lines (py ''ab cd efgh'') 4)) (py ''ab cd efgh'')"
    using t s' by blast
  have c: "filter (\<lambda>c. c \<noteq> sp) (concat (wrap_text_to_lines (py ''ab cd efgh'') 4)) = py ''abcdefgh''"
    using t f by simp
  have w': "py ''ab cd efgh'' = weave [[], [sp], [sp]] (wrap_text_to_lines (py ''ab cd efgh'') 4) @ []"
    unfolding e by (rule w)
  from h s e j q c w' show ?thesis by (intro conjI)
qed

text \<open>Where spaces are left out: \<open>ab  cd efgh\<close> at width 4 keeps one of the two spaces
  behind \<open>ab\<close> on the first line and leaves out one space at the end of each of the
  first two lines.\<close>

lemma absorbed_spaces_example:
  "wrap_text_to_lines (py ''ab  cd efgh'') 4 = [py ''ab '', py ''cd'', py ''efgh''] \<and>
   py ''ab  cd efgh'' = weave [[], [sp], [sp]] [py ''ab '', py ''cd'', py ''efgh''] @ []"
  by (simp add: wrap_text_to_lines_def wrap_word_def py_def sp_def hard_split.simps)

section \<open>The coordinate table\<close>

lemma map_line_step:
  assumes "map_line text mtw (tbl, length tbl) (length pre, l) = (tbl1, idx1)"
    "table_ok text (pre @ l # ls) mtw tbl"
  shows "idx1 = length tbl1 \<and> table_ok text (pre @ l # ls) mtw tbl1"
proof -
  let ?row = "map (\<lambda>ci. (length pre, ci)) [0..<length l]"
  let ?idx = "length tbl + length l"
  have row: "table_ok text (pre @ l # ls) mtw (tbl @ ?row)"
    unfolding table_ok_def
  proof (intro allI impI)
    fix p assume p: "p < length (tbl @ ?row)"
    show "cell_ok text (pre @ l # ls) mtw p ((tbl @ ?row) ! p)"
    proof (cases "p < length tbl")
      case True
      then show ?thesis using assms(2) by (simp add: table_ok_def nth_append)
    next
      case False
      then have "(tbl @ ?row) ! p = (length pre, p - length tbl)" "p - length tbl < length l"
        using p by (simp_all add: nth_append)
      then show ?thesis by (simp add: cell_ok_def)
    qed
  qed
  show ?thesis
  proof (cases "?idx < length text \<and> text ! ?idx = sp \<and> int (length l) < mtw")
    case True
    then have e: "tbl1 = (tbl @ ?row) @ [(length pre, length l)]" "idx1 = ?idx + 1"
      using assms(1) by (simp_all add: map_line_def Let_def)
    have "table_ok text (pre @ l # ls) mtw ((tbl @ ?row) @ [(length pre, length l)])"
      unfolding table_ok_def
    proof (intro allI impI)
      fix p assume p: "p < length ((tbl @ ?row) @ [(length pre, length l)])"
      show "cell_ok text (pre @ l # ls) mtw p (((tbl @ ?row) @ [(length pre, length l)]) ! p)"
      proof (cases "p < length (tbl @ ?row)")
        case True
        then have "((tbl @ ?row) @ [(length pre, length l)]) ! p = (tbl @ ?row) ! p"
          by (simp only: nth_append if_True)
        then show ?thesis using row True by (simp add: table_ok_def)
      next
        case False
        then have pe: "p = ?idx" using p by simp
        then have "((tbl @ ?row) @ [(length pre, length l)]) ! p = (length pre, length l)"
          by (simp add: nth_append)
        then show ?thesis using True pe by (simp add: cell_ok_def)
      qed
    qed
    then show ?thesis using e by simp
  next
    case False
    then have e: "tbl1 = tbl @ ?row" "idx1 = ?idx"
      using assms(1) by (auto simp: map_line_def Let_def)
    then show ?thesis using row by simp
  qed
qed

lemma foldl_map_line:
  "foldl (map_line text mtw) (tbl, length tbl) (enumerate (length pre) ls) = (tbl', idx') \<Longrightarrow>
   table_ok text (pre @ ls) mtw tbl \<Longrightarrow>
   idx' = length tbl' \<and> table_ok text (pre @ ls) mtw tbl'"
proof (induction ls arbitrary: tbl pre)
  case Nil
  then show ?case by auto
next
  case (Cons l ls)
  obtain tbl1 idx1 where s1: "map_line text mtw (tbl, length tbl) (length pre, l) = (tbl1, idx1)"
    by (cases "map_line text mtw (tbl, length tbl) (length pre, l)") auto
  from map_line_step[OF s1 Cons.prems(2)]
  have i1: "idx1 = length tbl1" and ok1: "table_ok text ((pre @ [l]) @ ls) mtw tbl1" by simp_all
  have "foldl (map_line text mtw) (tbl1, length tbl1) (enumerate (length (pre @ [l])) ls) = (tbl', idx')"
    using Cons.prems(1) s1 i1 by simp
  from Cons.IH[OF this ok1] show ?case by simp
qed

lemma flat_to_line_ok: "table_ok text lines mtw (flat_to_line text lines mtw)"
proof -
  obtain tbl' idx' where f: "foldl (map_line text mtw) ([], 0) (enumerate 0 lines) = (tbl', idx')"
    by (cases "foldl (map_line text mtw) ([], 0) (enumerate 0 lines)") auto
  have "foldl (map_line text mtw) ([], length ([]::(nat \<times> nat) list)) (enumerate (length ([]::pystr list)) lines) = (tbl', idx')"
    using f by simp
  from foldl_map_line[OF this] have "table_ok text ([] @ lines) mtw tbl'"
    by (simp add: table_ok_def)
  then show ?thesis using f by (simp add: flat_to_line_def)
qed

text \<open>
  C3, as amended. In the coordinate table, the flat index \<open>p\<close> is given the cell just
  behind the last character of a line only if the text has a space at \<open>p\<close> and the
  line is shorter than the width; every other cell lies on a character of its line.
  Whether wrapping closed the line plays no part. At width 4 the text \<open>ab cd\<close> wraps
  to \<open>ab\<close> and \<open>cd\<close>, and its space at flat index 2 has the cell \<open>(0, 2)\<close>.
\<close>

theorem space_cell_needs_room:
  assumes "p < length (flat_to_line text lines max_text_width)"
    and "flat_to_line text lines max_text_width ! p = (li, ci)"
  shows "li < length lines \<and> ci \<le> length (lines ! li) \<and>
         (ci = length (lines ! li) \<longrightarrow>
            int (length (lines ! li)) < max_text_width \<and> p < length text \<and> text ! p = sp)"
  using flat_to_line_ok[of "text" lines max_text_width] assms
  by (auto simp: table_ok_def cell_ok_def)

lemma wrap_ab_cd: "wrap_text_to_lines (py ''ab cd'') 4 = [py ''ab'', py ''cd'']"
  by (simp add: wrap_text_to_lines_def wrap_word_def py_def sp_def hard_split.simps)

lemma table_ab_cd:
  "flat_to_line (py ''ab cd'') [py ''ab'', py ''cd''] 4 = [(0, 0), (0, 1), (0, 2), (1, 0), (1, 1)]"
  by (simp add: flat_to_line_def map_line_def py_def sp_def enumerate_eq_zip upt_rec)

theorem space_cell_needs_room_witness:
  "2 < length (flat_to_line (py ''ab cd'') (wrap_text_to_lines (py ''ab cd'') 4) 4) \<and>
   flat_to_line (py ''ab cd'') (wrap_text_to_lines (py ''ab cd'') 4) 4 ! 2 = (0, 2) \<and>
   2 = length (wrap_text_to_lines (py ''ab cd'') 4 ! 0) \<and>
   int (length (wrap_text_to_lines (py ''ab cd'') 4 ! 0)) < 4 \<and> py ''ab cd'' ! 2 = sp"
proof -
  have a: "2 < length (flat_to_line (py ''ab cd'') (wrap_text_to_lines (py ''ab cd'') 4) 4)"
    by (simp add: wrap_ab_cd table_ab_cd)
  have b: "flat_to_line (py ''ab cd'') (wrap_text_to_lines (py ''ab cd'') 4) 4 ! 2 = (0, 2)"
    by (simp add: wrap_ab_cd table_ab_cd)
  have c: "2 = length (wrap_text_to_lines (py ''ab cd'') 4 ! 0)"
    unfolding wrap_ab_cd by (simp add: py_def)
  show ?thesis using a b c space_cell_needs_room[OF a b] by simp
qed

text \<open>
  C3 as stated fails on its own example: \<open>render_screen\<close> on a screen 6 columns wide
  (text width 4) wraps \<open>ab cd\<close> to two lines, the first closed by wrapping, and still
  gives the space at flat index 2 a cell; all five characters have one.
\<close>

theorem space_after_wrapped_line_has_cell:
  "render_layout (py ''ab cd'') 6 =
     ([py ''ab'', py ''cd''], [(0, 0), (0, 1), (0, 2), (1, 0), (1, 1)]) \<and>
   py ''ab cd'' ! 2 = sp \<and>
   flat_to_line (py ''ab cd'') (wrap_text_to_lines (py ''ab cd'') 4) 4 ! 2 = (0, 2) \<and>
   length (flat_to_line (py ''ab cd'') (wrap_text_to_lines (py ''ab cd'') 4) 4) = length (py ''ab cd'')"
  by (simp add: render_layout_def wrap_ab_cd table_ab_cd) (simp add: py_def sp_def)

text \<open>A space is absorbed behind a full line: \<open>abcd ef\<close> has seven characters and
  six cells.\<close>

lemma absorbed_example:
  "wrap_text_to_lines (py ''abcd ef'') 4 = [py ''abcd'', py ''ef''] \<and>
   flat_to_line (py ''abcd ef'') [py ''abcd'', py ''ef''] 4 = [(0, 0), (0, 1), (0, 2), (0, 3), (1, 0), (1, 1)]"
  by (simp add: wrap_text_to_lines_def wrap_word_def hard_split.simps flat_to_line_def map_line_def py_def sp_def enumerate_eq_zip upt_rec)

section \<open>The counters of a session\<close>

lemma hits_misses: "length ts \<le> length text \<Longrightarrow> hits ts text + misses ts text = int (length ts)"
proof -
  assume a: "length ts \<le> length text"
  have "length (filter (\<lambda>(a, b). a = b) (zip ts text)) + length (filter (\<lambda>(a, b). a \<noteq> b) (zip ts text))
        = length (zip ts text)"
  proof -
    have "(\<lambda>(a, b). a \<noteq> b) = (\<lambda>x::nat \<times> nat. \<not> (case x of (a, b) \<Rightarrow> a = b))"
      by auto
    then show ?thesis
      using sum_length_filter_compl[of "\<lambda>(a, b). a = b" "zip ts text"] by simp
  qed
  then show ?thesis using a by (simp add: hits_def misses_def)
qed

lemma hits_nonneg: "0 \<le> hits ts text" and misses_nonneg: "0 \<le> misses ts text"
  by (simp_all add: hits_def misses_def)

lemma zip_snoc:
  "length xs < length ys \<Longrightarrow> zip (xs @ [x]) ys = zip xs ys @ [(x, ys ! length xs)]"
proof (induction xs arbitrary: ys)
  case Nil
  then show ?case by (cases ys) auto
next
  case (Cons a xs)
  then show ?case by (cases ys) auto
qed

lemma hits_snoc:
  "length ts < length text \<Longrightarrow>
   hits (ts @ [c]) text = hits ts text + (if c = text ! length ts then 1 else 0)"
  by (simp add: hits_def zip_snoc)

lemma misses_snoc:
  "length ts < length text \<Longrightarrow>
   misses (ts @ [c]) text = misses ts text + (if c = text ! length ts then 0 else 1)"
  by (simp add: misses_def zip_snoc)

lemma hits_grow: "length ts \<le> length text \<Longrightarrow> hits ts (text @ ext) = hits ts text"
  by (simp add: hits_def zip_append2)

lemma misses_grow: "length ts \<le> length text \<Longrightarrow> misses ts (text @ ext) = misses ts text"
  by (simp add: misses_def zip_append2)

lemma py_get_last: "xs \<noteq> [] \<Longrightarrow> py_get xs (int (length xs) - 1) = Some (last xs)"
  by (cases xs rule: rev_cases) (auto simp: py_get_def)

lemma py_get_nth:
  "0 < k \<Longrightarrow> k \<le> length xs \<Longrightarrow> py_get xs (int k - 1) = Some (xs ! (k - 1))"
  by (auto simp: py_get_def nat_diff_distrib')

lemma counted_fresh: "counted (fresh_session text)"
  by (simp add: counted_def fresh_session_def Stats_def hits_def misses_def)

lemma backspace_counted:
  assumes "counted s"
  shows "\<exists>s'. backspace s = Some s' \<and> counted s' \<and> phase s' = phase s \<and>
              target s' = target s \<and> typed_l s' = butlast (typed_l s) \<and>
              started (stat s') = started (stat s) \<and> ended (stat s') = ended (stat s) \<and>
              returned s' = returned s"
proof (cases "typed_l s = []")
  case True
  then show ?thesis using assms by (simp add: backspace_def)
next
  case False
  then obtain ts a where ts: "typed_l s = ts @ [a]"
    by (cases "typed_l s" rule: rev_cases) auto
  have len: "length ts < length (target s)" using assms ts by (simp add: counted_def)
  have g1: "py_get (typed_l s) (int (length (typed_l s)) - 1) = Some a"
    using py_get_last[OF False] ts by simp
  have g2: "py_get (target s) (int (length (typed_l s)) - 1) = Some (target s ! length ts)"
    using py_get_nth[of "length (typed_l s)" "target s"] assms ts by (simp add: counted_def)
  have c: "correct (stat s) = hits ts (target s) + (if a = target s ! length ts then 1 else 0)"
    using assms ts len by (simp add: counted_def hits_snoc)
  have m: "mistakes (stat s) = misses ts (target s) + (if a = target s ! length ts then 0 else 1)"
    using assms ts len by (simp add: counted_def misses_snoc)
  have t: "typed (stat s) = int (length ts) + 1" using assms ts by (simp add: counted_def)
  show ?thesis
    using False g1 g2 c m t ts len hits_nonneg[of ts "target s"] misses_nonneg[of ts "target s"]
    by (simp add: backspace_def counted_def Let_def)
qed

lemma begin_timing_counted:
  "counted s \<Longrightarrow> counted (begin_timing s c now)"
  by (simp add: begin_timing_def counted_def start_def)

lemma begin_timing_same [simp]:
  "target (begin_timing s c now) = target s" "typed_l (begin_timing s c now) = typed_l s"
  "phase (begin_timing s c now) = phase s" "returned (begin_timing s c now) = returned s"
  "ended (stat (begin_timing s c now)) = ended (stat s)"
  "typed (stat (begin_timing s c now)) = typed (stat s)"
  "correct (stat (begin_timing s c now)) = correct (stat s)"
  "mistakes (stat (begin_timing s c now)) = mistakes (stat s)"
  by (simp_all add: begin_timing_def start_def)

lemma accept_char_counted:
  assumes "counted s"
  shows "\<exists>s'. accept_char s c = Some s' \<and> counted s' \<and> phase s' = phase s \<and>
              target s' = target s \<and> returned s' = returned s \<and>
              started (stat s') = started (stat s) \<and> ended (stat s') = ended (stat s) \<and>
              typed_l s' = (if length (typed_l s) < length (target s) then typed_l s @ [c] else typed_l s)"
proof (cases "length (typed_l s) < length (target s)")
  case True
  have g: "py_get (target s) (int (length (typed_l s @ [c])) - 1) = Some (target s ! length (typed_l s))"
    using py_get_nth[of "length (typed_l s @ [c])" "target s"] True by simp
  show ?thesis
    using True g assms
    by (simp add: accept_char_def counted_def Let_def hits_snoc misses_snoc)
next
  case False
  then show ?thesis using assms by (simp add: accept_char_def)
qed

lemma DEFAULT_WORDS_not_Nil: "DEFAULT_WORDS \<noteq> []"
  by (simp add: DEFAULT_WORDS_def)

lemma src_words_not_Nil: "src_words (WordSource R cfg e) \<noteq> []"
  by (simp add: WordSource_def Let_def DEFAULT_WORDS_not_Nil)

lemma draw_total:
  "ws \<noteq> [] \<Longrightarrow> \<exists>xs g'. draw R ws g n = Some (xs, g') \<and> length xs = n"
proof (induction n arbitrary: g)
  case 0
  then show ?case by simp
next
  case (Suc n)
  obtain i g1 where r: "randbelow R g (length ws) = (i, g1)"
    by (cases "randbelow R g (length ws)") auto
  then have c: "choice R g ws = Some (ws ! (i mod length ws), g1)"
    using Suc.prems by (simp add: choice_def)
  from Suc.IH[OF Suc.prems, of g1] obtain xs g' where "draw R ws g1 n = Some (xs, g')" "length xs = n"
    by blast
  with c show ?case by simp
qed

lemma generate_total:
  "\<exists>ws src'. generate R (WordSource R cfg e) n = Some (ws, src') \<and> length ws = nat n"
proof -
  have "\<exists>xs g'. draw R (src_words (WordSource R cfg e)) (rng (WordSource R cfg e)) (nat n) = Some (xs, g')
          \<and> length xs = nat n"
    by (rule draw_total[OF src_words_not_Nil])
  then obtain xs g' where "draw R (src_words (WordSource R cfg e)) (rng (WordSource R cfg e)) (nat n) = Some (xs, g')"
    "length xs = nat n" by blast
  then show ?thesis by (simp add: generate_def)
qed

lemma extend_text_counted:
  assumes "counted s"
  shows "\<exists>s'. extend_text R cfg s inp = Some s' \<and> counted s' \<and> phase s' = phase s \<and>
              typed_l s' = typed_l s \<and> stat s' = stat s \<and> returned s' = returned s \<and>
              (\<exists>ext. target s' = target s @ ext)"
proof -
  have "\<exists>ws src'. generate R (WordSource R cfg (os_entropy inp)) 50 = Some (ws, src') \<and> length ws = nat 50"
    by (rule generate_total)
  then obtain ws src' where g: "generate R (WordSource R cfg (os_entropy inp)) 50 = Some (ws, src')"
    by blast
  have "counted (s\<lparr>target := target s @ [sp] @ join [sp] ws\<rparr>)"
    using assms by (simp add: counted_def hits_grow misses_grow)
  then show ?thesis using assms g by (simp add: extend_text_def)
qed

lemma printable_counted:
  assumes "counted s"
  shows "\<exists>s'. printable R cfg s c inp = Some s' \<and> counted s' \<and> phase s' = phase s \<and>
              returned s' = returned s \<and>
              started (stat s') = started (stat (begin_timing s c (t_start inp))) \<and>
              ended (stat s') = ended (stat s) \<and>
              typed_l s' = (if length (typed_l s) < length (target s) then typed_l s @ [c]
                            else typed_l s) \<and>
              (\<exists>ext. target s' = target s @ ext)"
proof -
  from accept_char_counted[OF begin_timing_counted[OF assms], where c = c and c1 = c and now1 = "t_start inp"]
  obtain s1 where s1: "accept_char (begin_timing s c (t_start inp)) c = Some s1" "counted s1"
    "phase s1 = phase s" "returned s1 = returned s" "target s1 = target s"
    "started (stat s1) = started (stat (begin_timing s c (t_start inp)))"
    "ended (stat s1) = ended (stat s)"
    "typed_l s1 = (if length (typed_l s) < length (target s) then typed_l s @ [c] else typed_l s)"
    by auto
  from extend_text_counted[OF s1(2)]
  obtain s2 where "extend_text R cfg s1 inp = Some s2" "counted s2" "phase s2 = phase s1"
    "returned s2 = returned s1" "typed_l s2 = typed_l s1" "stat s2 = stat s1"
    "\<exists>ext. target s2 = target s1 @ ext" by blast
  with s1 show ?thesis by (simp add: printable_def)
qed

lemma check_end_counted: "counted s \<Longrightarrow> counted (check_end cfg s inp)"
  by (simp add: check_end_def counted_def stop_def)

lemma results_pass_counted: "counted s \<Longrightarrow> counted (results_pass s inp)"
  by (simp add: results_pass_def counted_def split: wch.splits)

lemma main_pass_counted:
  assumes "counted s"
  shows "\<exists>s'. main_pass R cfg s inp = Some s' \<and> counted s'"
proof -
  obtain sb where sb: "backspace s = Some sb" "counted sb"
    using backspace_counted[OF assms] by blast
  have quit: "counted (s\<lparr>stat := stop (stat s) (t_stop inp), phase := Returned,
                     returned := Some (stop (stat s) (t_stop inp))\<rparr>)"
    using assms by (simp add: counted_def stop_def)
  have restart: "counted (s\<lparr>phase := Returned, returned := Some Stats\<rparr>)"
    using assms by (simp add: counted_def)
  have pr: "\<And>c. \<exists>s'. printable R cfg s c inp = Some s' \<and> counted s'"
    using printable_counted[OF assms] by blast
  show ?thesis
  proof (cases "key inp")
    case (Str c0)
    obtain sp1 where sp1: "printable R cfg s (if c0 = nl \<or> c0 = cr then sp else c0) inp = Some sp1"
      "counted sp1" using pr by blast
    show ?thesis
      using Str sb sp1 quit restart assms check_end_counted
      by (auto simp: main_pass_def Let_def)
  next
    case (Code n)
    show ?thesis
      using Code sb quit assms check_end_counted
      by (auto simp: main_pass_def Let_def)
  qed
qed

lemma step_counted:
  assumes "counted s"
  shows "\<exists>s'. step R cfg s inp = Some s' \<and> counted s'"
  using main_pass_counted[OF assms] results_pass_counted[OF assms] assms
  by (cases "phase s") (auto simp: step_def)

lemma run_counted:
  "counted s \<Longrightarrow> \<exists>s'. run R cfg s inps = Some s' \<and> counted s'"
proof (induction inps arbitrary: s)
  case Nil
  then show ?case by simp
next
  case (Cons inp inps)
  from step_counted[OF Cons.prems] obtain s1 where
    "step R cfg s inp = Some s1" "counted s1" by blast
  with Cons.IH[of s1] show ?case by simp
qed

lemma counted_sum: "counted s \<Longrightarrow> typed (stat s) = correct (stat s) + mistakes (stat s)"
  using hits_misses[of "typed_l s" "target s"] by (simp add: counted_def)


section \<open>Evaluating the examples\<close>

lemmas char_defs = py_def sp_def tab_def nl_def cr_def esc_def bs_def del_def
  KEY_EXIT_def KEY_RESIZE_def KEY_BACKSPACE_def

lemmas pass_defs = step_def main_pass_def results_pass_def printable_def begin_timing_def
  accept_char_def extend_text_def check_end_def finished_def backspace_def py_get_def
  strip_def isspace_def isprintable_def lower_is_def start_def stop_def seconds_elapsed_def
  fresh_session_def Stats_def

lemmas example_defs = press_def chr_def lcg_def words_cfg_def time_cfg_def

lemma time_cfg_fields: "mode time_cfg = ''time''" "seconds time_cfg = 60"
  by (simp_all add: time_cfg_def)

lemma press_fields: "key (press k t) = k" "t_start (press k t) = t" "t_extend (press k t) = t"
  "t_check (press k t) = t" "t_stop (press k t) = t" "os_entropy (press k t) = 0"
  by (simp_all add: press_def)

lemma isprintable_ascii: "c < 128 \<Longrightarrow> isprintable R c = (32 \<le> c \<and> c < 127)"
  by (simp add: isprintable_def)


text \<open>Building the text succeeds in WordCount mode, and in Time mode when the word
  count does; then the same holds of \<open>typing_session\<close> from its start.\<close>

lemma build_text_total:
  assumes "mode cfg = ''words'' \<or> est_words R cfg \<noteq> None"
  shows "\<exists>text. build_text R (WordSource R cfg e) cfg = Some text"
proof -
  obtain n where n: "(if mode cfg = ''words'' then Some (max 1 (words cfg)) else est_words R cfg) = Some n"
    using assms by (cases "mode cfg = ''words''") auto
  have "\<exists>ws src'. generate R (WordSource R cfg e) n = Some (ws, src') \<and> length ws = nat n"
    by (rule generate_total)
  then obtain ws src' where "generate R (WordSource R cfg e) n = Some (ws, src')"
    by blast
  then show ?thesis using n by (simp add: build_text_def)
qed

lemma typing_session_counters:
  assumes "mode cfg = ''words'' \<or> est_words R cfg \<noteq> None"
  shows "\<exists>s. typing_session R cfg entropy inps = Some s \<and>
             typed (stat s) = correct (stat s) + mistakes (stat s) \<and>
             typed (stat s) = int (length (typed_l s))"
proof -
  have "\<exists>t0. build_text R (WordSource R cfg entropy) cfg = Some t0"
    by (rule build_text_total[OF assms])
  then obtain t0 where "build_text R (WordSource R cfg entropy) cfg = Some t0"
    by blast
  then have t: "typing_session R cfg entropy inps = run R cfg (fresh_session t0) inps"
    by (simp add: typing_session_def)
  from run_counted[OF counted_fresh] obtain s where
    "run R cfg (fresh_session t0) inps = Some s" "counted s" by blast
  then show ?thesis
    using t counted_sum[of s] by (auto simp: counted_def)
qed

section \<open>Derived metrics\<close>

lemma raw_wpm_None:
  "raw_wpm s now1 now2 = None \<longleftrightarrow>
     0 < minutes_elapsed s now1 \<and> minutes_elapsed s now2 = 0"
  by (auto simp: raw_wpm_def)

lemma minutes_elapsed_nonneg: "0 \<le> minutes_elapsed s now"
  by (simp add: minutes_elapsed_def seconds_elapsed_def split: option.splits)

lemma minutes_elapsed_mono:
  "now1 \<le> now2 \<Longrightarrow> minutes_elapsed s now1 \<le> minutes_elapsed s now2"
  by (auto simp: minutes_elapsed_def seconds_elapsed_def split: option.splits)

text \<open>
  In every state a session reaches, \<open>0 \<le> correct \<le> typed\<close>; so \<open>accuracy\<close>, which is 0
  when \<open>typed\<close> is 0 and \<open>correct / typed\<close> otherwise, lies between 0 and 1. When
  \<open>raw_wpm\<close> returns, its value is not negative, and it returns whenever its second
  reading of the clock is not before its first.
\<close>

lemma metrics_bounds:
  assumes "run R cfg (fresh_session text) inps = Some s"
  shows "0 \<le> correct (stat s) \<and> correct (stat s) \<le> typed (stat s) \<and>
         accuracy (stat s) =
           (if typed (stat s) = 0 then 0
            else real_of_int (correct (stat s)) / real_of_int (typed (stat s))) \<and>
         0 \<le> accuracy (stat s) \<and> accuracy (stat s) \<le> 1 \<and>
         (\<forall>r. raw_wpm (stat s) now1 now2 = Some r \<longrightarrow> 0 \<le> r) \<and>
         (now1 \<le> now2 \<longrightarrow> raw_wpm (stat s) now1 now2 \<noteq> None)"
proof -
  have "\<exists>s'. run R cfg (fresh_session text) inps = Some s' \<and> counted s'"
    by (rule run_counted[OF counted_fresh])
  then have c: "counted s" using assms by simp
  have c0: "0 \<le> correct (stat s)" using c hits_nonneg by (simp add: counted_def)
  have m0: "0 \<le> mistakes (stat s)" using c misses_nonneg by (simp add: counted_def)
  have ct: "correct (stat s) \<le> typed (stat s)" using counted_sum[OF c] m0 by simp
  have a0: "0 \<le> accuracy (stat s)" using c0 ct by (simp add: accuracy_def)
  have a1: "accuracy (stat s) \<le> 1" using c0 ct by (simp add: accuracy_def)
  have w: "\<forall>r. raw_wpm (stat s) now1 now2 = Some r \<longrightarrow> 0 \<le> r"
    using c0 minutes_elapsed_nonneg[of "stat s" now2]
    by (auto simp: raw_wpm_def split: if_splits)
  have t: "now1 \<le> now2 \<longrightarrow> raw_wpm (stat s) now1 now2 \<noteq> None"
    using minutes_elapsed_mono[of now1 now2 "stat s"] by (auto simp: raw_wpm_None)
  show ?thesis using c0 ct a0 a1 w t by (simp add: accuracy_def)
qed

lemma metrics_example:
  "run lcg words_cfg (fresh_session (py ''abX'')) [press (chr ''a'') 10, press (chr ''x'') 11]
     = Some \<lparr>target = py ''abX'', typed_l = py ''ax'',
         stat = \<lparr>started = Some 10, ended = None, typed = 2, correct = 1, mistakes = 1\<rparr>,
         phase = Typing, returned = None\<rparr>"
  by (simp add: pass_defs char_defs example_defs Let_def)

text \<open>
  C7. The accuracy of a reached state lies between 0 and 1, and \<open>raw_wpm\<close> is not negative
  where the clock stands still; but \<open>raw_wpm\<close> reads the clock twice, and in the state
  reached by two keys with \<open>started = 10\<close> a first reading of 11 passes the test for a
  positive time while a second reading of 10 (or 9) makes the divisor \<open>0.0\<close>: the
  division raises, so there \<open>raw_wpm\<close> has no value.
\<close>

theorem raw_wpm_clock_step_back:
  "(\<exists>s. run lcg words_cfg (fresh_session (py ''abX''))
          [press (chr ''a'') 10, press (chr ''x'') 11] = Some s \<and>
        stat s = \<lparr>started = Some 10, ended = None, typed = 2, correct = 1, mistakes = 1\<rparr> \<and>
        accuracy (stat s) = 1 / 2 \<and>
        raw_wpm (stat s) 16 16 = Some 2 \<and>
        raw_wpm (stat s) 11 10 = None \<and>
        raw_wpm (stat s) 11 9 = None)"
proof (rule exI[of _ "\<lparr>target = py ''abX'', typed_l = py ''ax'',
         stat = \<lparr>started = Some 10, ended = None, typed = 2, correct = 1, mistakes = 1\<rparr>,
         phase = Typing, returned = None\<rparr>"], rule conjI)
  show "run lcg words_cfg (fresh_session (py ''abX''))
          [press (chr ''a'') 10, press (chr ''x'') 11]
     = Some \<lparr>target = py ''abX'', typed_l = py ''ax'',
         stat = \<lparr>started = Some 10, ended = None, typed = 2, correct = 1, mistakes = 1\<rparr>,
         phase = Typing, returned = None\<rparr>"
    by (rule metrics_example)
qed (simp add: accuracy_def raw_wpm_def minutes_elapsed_def seconds_elapsed_def)

section \<open>The scenario on the target abX\<close>

text \<open>
  C2, as amended. Outside Time mode, a fresh session on the target \<open>abX\<close> that reads
  \<open>a\<close>, \<open>b\<close>, \<open>c\<close>, a backspace (in any of its four forms) and \<open>X\<close> ends with
  \<open>typed = 3\<close>, \<open>correct = 2\<close>, \<open>mistakes = 1\<close>: the third key fills the target and
  finishes the session, and the results panel reads the last two keys.
\<close>

theorem abX_words_mode:
  assumes "mode cfg \<noteq> ''time''"
    and "map key inps = [chr ''a'', chr ''b'', chr ''c'', bk, chr ''X'']"
    and "bk = Str del \<or> bk = Str bs \<or> bk = Code KEY_BACKSPACE \<or> bk = Code 127"
  shows "\<exists>s. run R cfg (fresh_session (py ''abX'')) inps = Some s \<and>
             typed (stat s) = 3 \<and> correct (stat s) = 2 \<and> mistakes (stat s) = 1 \<and>
             phase s = Results \<and> typed_l s = py ''abc''"
proof -
  from assms(2) obtain i1 i2 i3 i4 i5 where
    i: "inps = [i1, i2, i3, i4, i5]" "key i1 = chr ''a''" "key i2 = chr ''b''"
       "key i3 = chr ''c''" "key i4 = bk" "key i5 = chr ''X''"
    by (auto simp: map_eq_Cons_conv)
  from assms(3) show ?thesis
    using i assms(1)
    by (auto simp: pass_defs char_defs chr_def Let_def)
qed

theorem abX_words_mode_witness:
  "mode words_cfg \<noteq> ''time'' \<and>
   map key [press (chr ''a'') 1, press (chr ''b'') 2, press (chr ''c'') 3, press (Str del) 4,
            press (chr ''X'') 5]
     = [chr ''a'', chr ''b'', chr ''c'', Str del, chr ''X''] \<and>
   (\<exists>s. run lcg words_cfg (fresh_session (py ''abX''))
          [press (chr ''a'') 1, press (chr ''b'') 2, press (chr ''c'') 3, press (Str del) 4,
           press (chr ''X'') 5] = Some s \<and>
        typed (stat s) = 3 \<and> correct (stat s) = 2 \<and> mistakes (stat s) = 1 \<and>
        phase s = Results \<and> typed_l s = py ''abc'')"
proof -
  have a: "mode words_cfg \<noteq> ''time''" by (simp add: words_cfg_def)
  have b: "map key [press (chr ''a'') 1, press (chr ''b'') 2, press (chr ''c'') 3,
              press (Str del) 4, press (chr ''X'') 5]
     = [chr ''a'', chr ''b'', chr ''c'', Str del, chr ''X'']" by (simp add: press_def)
  have c: "Str del = Str del \<or> Str del = Str bs \<or> Str del = Code KEY_BACKSPACE \<or> Str del = Code 127"
    by simp
  show ?thesis using a b abX_words_mode[OF a b c, of lcg] by simp
qed

text \<open>
  C2 as stated fails in Time mode with time left: the third key extends the target, the
  backspace takes the mistake back and \<open>X\<close> is correct, so the counters end at 3, 3, 0.
\<close>

theorem abX_time_mode:
  "map_option (\<lambda>s. (typed (stat s), correct (stat s), mistakes (stat s), phase s))
     (run lcg time_cfg (fresh_session (py ''abX''))
        [press (chr ''a'') 1, press (chr ''b'') 2, press (chr ''c'') 3, press (Str del) 4,
         press (chr ''X'') 5])
   = Some (3, 3, 0, Typing)"
proof -
  have "\<exists>ws src'. generate lcg (WordSource lcg time_cfg 0) 50 = Some (ws, src') \<and> length ws = nat 50"
    by (rule generate_total)
  then obtain ws src' where g: "generate lcg (WordSource lcg time_cfg 0) 50 = Some (ws, src')"
    by blast
  show ?thesis
    by (simp add: pass_defs char_defs chr_def press_fields time_cfg_fields isprintable_ascii g
        Let_def nth_append)
qed

section \<open>The start of the clock\<close>

lemma printable_not_control:
  assumes "c = (if c0 = nl \<or> c0 = cr then sp else c0)" "isprintable R c \<or> c = sp"
  shows "c0 \<noteq> tab \<and> c0 \<noteq> esc \<and> c \<noteq> del \<and> c \<noteq> bs"
  using assms by (auto simp: isprintable_def char_defs split: if_splits)

lemma main_pass_printable_bind:
  assumes "key inp = Str c0" "c = (if c0 = nl \<or> c0 = cr then sp else c0)"
    "isprintable R c \<or> c = sp"
  shows "main_pass R cfg s inp =
           (case printable R cfg s c inp of None \<Rightarrow> None
            | Some s1 \<Rightarrow> Some (check_end cfg s1 inp))"
  using printable_not_control[OF assms(2,3)] assms
  by (auto simp: main_pass_def Let_def split: option.splits)

lemma check_end_fields [simp]:
  "started (stat (check_end cfg s inp)) = started (stat s)"
  "typed (stat (check_end cfg s inp)) = typed (stat s)"
  "correct (stat (check_end cfg s inp)) = correct (stat s)"
  "mistakes (stat (check_end cfg s inp)) = mistakes (stat s)"
  "typed_l (check_end cfg s inp) = typed_l s"
  "target (check_end cfg s inp) = target s"
  "returned (check_end cfg s inp) = returned s"
  by (simp_all add: check_end_def stop_def)

lemma check_end_phase:
  "phase s = Typing \<Longrightarrow>
   (phase (check_end cfg s inp) = Typing \<and> check_end cfg s inp = s) \<or>
   phase (check_end cfg s inp) = Results"
  by (simp add: check_end_def)

lemma backspace_started:
  "backspace s = Some s' \<Longrightarrow> started (stat s') = started (stat s)"
  by (auto simp: backspace_def Let_def bind_eq_Some_conv split: if_splits)

lemma accept_char_started:
  "accept_char s c = Some s' \<Longrightarrow> started (stat s') = started (stat s)"
  by (auto simp: accept_char_def Let_def bind_eq_Some_conv split: if_splits)

lemma extend_text_stat:
  "extend_text R cfg s inp = Some s' \<Longrightarrow> stat s' = stat s"
  by (auto simp: extend_text_def bind_eq_Some_conv split: if_splits)

lemma printable_started:
  assumes "printable R cfg s c inp = Some s'"
  shows "started (stat s') = started (stat (begin_timing s c (t_start inp)))"
proof -
  from assms obtain s1 where s1: "accept_char (begin_timing s c (t_start inp)) c = Some s1"
    "extend_text R cfg s1 inp = Some s'"
    by (auto simp: printable_def bind_eq_Some_conv)
  show ?thesis using accept_char_started[OF s1(1)] extend_text_stat[OF s1(2)] by simp
qed

lemma begin_timing_started:
  "started (stat s) = Some t \<Longrightarrow> started (stat (begin_timing s c now)) = Some t"
  by (simp add: begin_timing_def)

lemma main_pass_shape:
  assumes "main_pass R cfg s inp = Some s'"
  shows "s' = s\<lparr>phase := Returned, returned := Some Stats\<rparr> \<or>
         s' = s\<lparr>stat := stop (stat s) (t_stop inp), phase := Returned,
                returned := Some (stop (stat s) (t_stop inp))\<rparr> \<or>
         s' = s \<or> backspace s = Some s' \<or> s' = check_end cfg s inp \<or>
         (\<exists>s1. backspace s = Some s1 \<and> s' = check_end cfg s1 inp) \<or>
         (\<exists>s1 c0. key inp = Str c0 \<and>
            printable R cfg s (if c0 = nl \<or> c0 = cr then sp else c0) inp = Some s1 \<and>
            s' = check_end cfg s1 inp)"
proof (cases "key inp")
  case (Str c0)
  show ?thesis
    using assms Str
    by (simp add: main_pass_def Let_def bind_eq_Some_conv split: if_splits) blast+
next
  case (Code n)
  show ?thesis
    using assms Code
    by (simp add: main_pass_def Let_def bind_eq_Some_conv split: if_splits) blast+
qed

lemma main_pass_started:
  assumes "started (stat s) = Some t" "main_pass R cfg s inp = Some s'"
  shows "started (stat s') = Some t"
proof -
  have ce: "\<And>x. started (stat (check_end cfg x inp)) = started (stat x)"
    by (simp add: check_end_def stop_def)
  from main_pass_shape[OF assms(2)] show ?thesis
  proof (elim disjE exE conjE)
    assume "s' = s\<lparr>phase := Returned, returned := Some Stats\<rparr>"
    then show ?thesis using assms(1) by simp
  next
    assume "s' = s\<lparr>stat := stop (stat s) (t_stop inp), phase := Returned,
                returned := Some (stop (stat s) (t_stop inp))\<rparr>"
    then show ?thesis using assms(1) by (simp add: stop_def)
  next
    assume "s' = s"
    then show ?thesis using assms(1) by simp
  next
    assume "backspace s = Some s'"
    then show ?thesis using assms(1) backspace_started by simp
  next
    assume "s' = check_end cfg s inp"
    then show ?thesis using assms(1) ce by simp
  next
    fix s1 assume "backspace s = Some s1" "s' = check_end cfg s1 inp"
    then show ?thesis using assms(1) ce backspace_started[of s s1] by simp
  next
    fix s1 c0 assume "printable R cfg s (if c0 = nl \<or> c0 = cr then sp else c0) inp = Some s1"
      "s' = check_end cfg s1 inp"
    then show ?thesis
      using assms(1) ce printable_started[of R cfg s _ inp s1] begin_timing_started[OF assms(1)]
      by simp
  qed
qed

lemma results_pass_stat: "stat (results_pass s inp) = stat s"
  by (simp add: results_pass_def split: wch.splits)

lemma started_kept_step:
  "started (stat s) = Some t \<Longrightarrow> step R cfg s inp = Some s' \<Longrightarrow> started (stat s') = Some t"
  using main_pass_started[of s t R cfg inp s']
  by (cases "phase s") (auto simp: step_def results_pass_stat)

lemma started_kept_run:
  "started (stat s) = Some t \<Longrightarrow> run R cfg s inps = Some s' \<Longrightarrow> started (stat s') = Some t"
proof (induction inps arbitrary: s)
  case Nil
  then show ?case by simp
next
  case (Cons inp inps)
  then obtain s1 where s1: "step R cfg s inp = Some s1" "run R cfg s1 inps = Some s'"
    by (auto split: option.splits)
  from started_kept_step[OF Cons.prems(1) s1(1)] Cons.IH s1(2) show ?case by blast
qed

lemma printable_phase:
  assumes "printable R cfg s c inp = Some s'"
  shows "phase s' = phase s \<and> ended (stat s') = ended (stat s)"
proof -
  from assms obtain s1 where s1: "accept_char (begin_timing s c (t_start inp)) c = Some s1"
    "extend_text R cfg s1 inp = Some s'"
    by (auto simp: printable_def bind_eq_Some_conv)
  have a: "phase s1 = phase s \<and> ended (stat s1) = ended (stat s)"
    using s1(1) by (auto simp: accept_char_def Let_def bind_eq_Some_conv split: if_splits)
  have b: "phase s' = phase s1 \<and> stat s' = stat s1"
    using s1(2) by (auto simp: extend_text_def bind_eq_Some_conv split: if_splits)
  show ?thesis using a b by simp
qed

lemma strip_single: "strip [c] \<noteq> [] \<longleftrightarrow> \<not> isspace c"
  by (simp add: strip_def)

lemma isspace_sp: "isspace sp"
  by (simp add: isspace_def sp_def)

text \<open>
  C6, as amended. In the main loop with \<open>started\<close> unset, a printable key that is not
  whitespace sets \<open>started\<close> to the clock's reading, and no later key changes it; the
  space (also the one that enter is mapped to) leaves \<open>started\<close> unset. After the key
  the session is still in the main loop with \<open>ended\<close> as before, unless that key also
  finished it.
\<close>

theorem started_by_first_visible_key:
  assumes "phase s = Typing" and "started (stat s) = None"
    and "key inp = Str c0" and "c = (if c0 = nl \<or> c0 = cr then sp else c0)"
    and "isprintable R c \<or> c = sp"
    and "step R cfg s inp = Some s1" and "run R cfg s1 inps = Some s2"
  shows "(\<not> isspace c \<longrightarrow>
            started (stat s1) = Some (t_start inp) \<and> started (stat s2) = Some (t_start inp)) \<and>
         (c = sp \<longrightarrow> started (stat s1) = None) \<and>
         (phase s1 = Typing \<and> ended (stat s1) = ended (stat s) \<or> phase s1 = Results)"
proof -
  have m: "main_pass R cfg s inp = Some s1" using assms(1,6) by (simp add: step_def)
  then obtain p where p: "printable R cfg s c inp = Some p" "s1 = check_end cfg p inp"
    using main_pass_printable_bind[OF assms(3,4,5), of cfg s] by (auto split: option.splits)
  have st: "started (stat s1) = started (stat (begin_timing s c (t_start inp)))"
    using p printable_started[OF p(1)] by simp
  have vis: "\<not> isspace c \<longrightarrow> started (stat s1) = Some (t_start inp)"
    using st assms(2) by (simp add: begin_timing_def start_def strip_single)
  have vis2: "\<not> isspace c \<longrightarrow> started (stat s2) = Some (t_start inp)"
    using vis started_kept_run[OF _ assms(7)] by blast
  have spc: "c = sp \<longrightarrow> started (stat s1) = None"
    using st assms(2) isspace_sp by (simp add: begin_timing_def strip_single)
  have ph: "phase p = Typing" "ended (stat p) = ended (stat s)"
    using printable_phase[OF p(1)] assms(1) by simp_all
  have "phase s1 = Typing \<and> ended (stat s1) = ended (stat s) \<or> phase s1 = Results"
    using check_end_phase[OF ph(1), of cfg inp] p(2) ph(2) by auto
  with vis vis2 spc show ?thesis by blast
qed

theorem started_by_first_visible_key_witness:
  "phase (fresh_session (py ''abc'')) = Typing \<and>
   started (stat (fresh_session (py ''abc''))) = None \<and>
   isprintable lcg 97 \<and> \<not> isspace 97 \<and>
   step lcg time_cfg (fresh_session (py ''abc'')) (press (Str 97) 5)
     = Some \<lparr>target = py ''abc'', typed_l = [97],
         stat = \<lparr>started = Some 5, ended = None, typed = 1, correct = 1, mistakes = 0\<rparr>,
         phase = Typing, returned = None\<rparr> \<and>
   run lcg time_cfg \<lparr>target = py ''abc'', typed_l = [97],
         stat = \<lparr>started = Some 5, ended = None, typed = 1, correct = 1, mistakes = 0\<rparr>,
         phase = Typing, returned = None\<rparr> [press (Str 98) 7]
     = Some \<lparr>target = py ''abc'', typed_l = [97, 98],
         stat = \<lparr>started = Some 5, ended = None, typed = 2, correct = 2, mistakes = 0\<rparr>,
         phase = Typing, returned = None\<rparr>"
proof -
  have a: "phase (fresh_session (py ''abc'')) = Typing" by (simp add: fresh_session_def)
  have b: "started (stat (fresh_session (py ''abc''))) = None"
    by (simp add: fresh_session_def Stats_def)
  have c: "key (press (Str 97) 5) = Str 97" by (simp add: press_def)
  have d: "(97::nat) = (if (97::nat) = nl \<or> (97::nat) = cr then sp else 97)"
    by (simp add: char_defs)
  have e: "isprintable lcg 97 \<or> (97::nat) = sp" by (simp add: isprintable_def)
  have f: "step lcg time_cfg (fresh_session (py ''abc'')) (press (Str 97) 5)
     = Some \<lparr>target = py ''abc'', typed_l = [97],
         stat = \<lparr>started = Some 5, ended = None, typed = 1, correct = 1, mistakes = 0\<rparr>,
         phase = Typing, returned = None\<rparr>"
    by (simp add: pass_defs char_defs press_fields time_cfg_fields isprintable_ascii Let_def)
  have g: "run lcg time_cfg \<lparr>target = py ''abc'', typed_l = [97],
         stat = \<lparr>started = Some 5, ended = None, typed = 1, correct = 1, mistakes = 0\<rparr>,
         phase = Typing, returned = None\<rparr> [press (Str 98) 7]
     = Some \<lparr>target = py ''abc'', typed_l = [97, 98],
         stat = \<lparr>started = Some 5, ended = None, typed = 2, correct = 2, mistakes = 0\<rparr>,
         phase = Typing, returned = None\<rparr>"
    by (simp add: pass_defs char_defs press_fields time_cfg_fields isprintable_ascii Let_def)
  have h: "\<not> isspace 97" by (simp add: isspace_def)
  show ?thesis
    using a b e f g h started_by_first_visible_key[OF a b c d e f g]
    by (simp add: isprintable_def)
qed

text \<open>
  C6 as stated fails for the space: a fresh session that reads enter, or a space, counts
  the keystroke and leaves \<open>started\<close> unset.
\<close>

theorem enter_leaves_clock_unset:
  "phase (fresh_session (py ''ab'')) = Typing \<and>
   started (stat (fresh_session (py ''ab''))) = None \<and>
   map_option (\<lambda>s. (started (stat s), typed (stat s), phase s))
     (step lcg time_cfg (fresh_session (py ''ab'')) (press (Str nl) 1)) = Some (None, 1, Typing) \<and>
   map_option (\<lambda>s. (started (stat s), typed (stat s), phase s))
     (step lcg time_cfg (fresh_session (py ''ab'')) (press (Str sp) 1)) = Some (None, 1, Typing)"
  by (simp add: pass_defs char_defs press_fields time_cfg_fields isprintable_ascii Let_def)

section \<open>Backspace after a printable key\<close>

lemma main_pass_backspace:
  assumes "key bk = Str del \<or> key bk = Str bs \<or> key bk = Code KEY_BACKSPACE \<or> key bk = Code 127"
    and "backspace s = Some s'"
  shows "main_pass R cfg s bk = Some s' \<or> main_pass R cfg s bk = Some (check_end cfg s' bk)"
  using assms by (auto simp: main_pass_def Let_def char_defs)

text \<open>
  C5, as amended. From a state a session reaches, a printable key that is accepted (the
  typed list is shorter than the target) and does not finish the session, followed at
  once by a backspace, gives back \<open>typed\<close>, \<open>correct\<close> and \<open>mistakes\<close>, and the typed
  list, as they were before the key.
\<close>

theorem backspace_undoes_accepted_key:
  assumes "run R cfg (fresh_session text) inps = Some s"
    and "key inp = Str c0" and "c = (if c0 = nl \<or> c0 = cr then sp else c0)"
    and "isprintable R c \<or> c = sp"
    and "length (typed_l s) < length (target s)"
    and "step R cfg s inp = Some s1" and "phase s1 = Typing"
    and "key bk = Str del \<or> key bk = Str bs \<or> key bk = Code KEY_BACKSPACE \<or> key bk = Code 127"
  shows "typed_l s1 = typed_l s @ [c] \<and> typed (stat s1) = typed (stat s) + 1 \<and>
         (\<exists>s2. step R cfg s1 bk = Some s2 \<and> typed_l s2 = typed_l s \<and>
               typed (stat s2) = typed (stat s) \<and> correct (stat s2) = correct (stat s) \<and>
               mistakes (stat s2) = mistakes (stat s))"
proof -
  have "\<exists>s'. run R cfg (fresh_session text) inps = Some s' \<and> counted s'"
    by (rule run_counted[OF counted_fresh])
  then have cs: "counted s" using assms(1) by simp
  have "phase s = Typing"
    using assms(6,7) by (cases "phase s") (auto simp: step_def results_pass_def split: wch.splits if_splits)
  then have m: "main_pass R cfg s inp = Some s1" using assms(6) by (simp add: step_def)
  then obtain p where p: "printable R cfg s c inp = Some p" "s1 = check_end cfg p inp"
    using main_pass_printable_bind[OF assms(2,3,4), of cfg s] by (auto split: option.splits)
  have "\<exists>s'. printable R cfg s c inp = Some s' \<and> counted s' \<and> phase s' = phase s \<and>
              returned s' = returned s \<and>
              started (stat s') = started (stat (begin_timing s c (t_start inp))) \<and>
              ended (stat s') = ended (stat s) \<and>
              typed_l s' = (if length (typed_l s) < length (target s) then typed_l s @ [c]
                            else typed_l s) \<and>
              (\<exists>ext. target s' = target s @ ext)"
    by (rule printable_counted[OF cs])
  then obtain ext where pp: "counted p" "typed_l p = typed_l s @ [c]" "target p = target s @ ext"
    using p(1) assms(5) by auto
  have c1: "counted s1" using check_end_counted[OF pp(1)] p(2) by simp
  have t1: "typed_l s1 = typed_l s @ [c]" "target s1 = target s @ ext"
    using pp(2,3) p(2) by simp_all
  from backspace_counted[OF c1] obtain b where
    b: "backspace s1 = Some b" "counted b" "target b = target s1"
       "typed_l b = butlast (typed_l s1)" by blast
  have tb: "typed_l b = typed_l s" using b(4) t1(1) by simp
  have le: "length (typed_l s) \<le> length (target s)" using assms(5) by simp
  have cnt: "typed (stat b) = typed (stat s)" "correct (stat b) = correct (stat s)"
    "mistakes (stat b) = mistakes (stat s)"
    using b(2,3) tb t1(2) cs le by (simp_all add: counted_def hits_grow misses_grow)
  have "step R cfg s1 bk = main_pass R cfg s1 bk" using assms(7) by (simp add: step_def)
  then have "step R cfg s1 bk = Some b \<or> step R cfg s1 bk = Some (check_end cfg b bk)"
    using main_pass_backspace[OF assms(8) b(1), of R cfg] by simp
  then have ex: "\<exists>s2. step R cfg s1 bk = Some s2 \<and> typed_l s2 = typed_l s \<and>
               typed (stat s2) = typed (stat s) \<and> correct (stat s2) = correct (stat s) \<and>
               mistakes (stat s2) = mistakes (stat s)"
    using tb cnt by auto
  have "typed (stat s1) = typed (stat s) + 1"
    using c1 cs t1(1) by (simp add: counted_def)
  with t1(1) ex show ?thesis by simp
qed

theorem backspace_undoes_accepted_key_witness:
  "run lcg words_cfg (fresh_session (py ''abX'')) [press (chr ''a'') 1]
     = Some \<lparr>target = py ''abX'', typed_l = py ''a'',
         stat = \<lparr>started = Some 1, ended = None, typed = 1, correct = 1, mistakes = 0\<rparr>,
         phase = Typing, returned = None\<rparr> \<and>
   step lcg words_cfg \<lparr>target = py ''abX'', typed_l = py ''a'',
         stat = \<lparr>started = Some 1, ended = None, typed = 1, correct = 1, mistakes = 0\<rparr>,
         phase = Typing, returned = None\<rparr> (press (chr ''x'') 2)
     = Some \<lparr>target = py ''abX'', typed_l = py ''ax'',
         stat = \<lparr>started = Some 1, ended = None, typed = 2, correct = 1, mistakes = 1\<rparr>,
         phase = Typing, returned = None\<rparr> \<and>
   (\<exists>s2. step lcg words_cfg \<lparr>target = py ''abX'', typed_l = py ''ax'',
         stat = \<lparr>started = Some 1, ended = None, typed = 2, correct = 1, mistakes = 1\<rparr>,
         phase = Typing, returned = None\<rparr> (press (Str del) 3) = Some s2 \<and>
       typed_l s2 = py ''a'' \<and> typed (stat s2) = 1 \<and> correct (stat s2) = 1 \<and>
       mistakes (stat s2) = 0)"
proof -
  let ?s = "\<lparr>target = py ''abX'', typed_l = py ''a'',
         stat = \<lparr>started = Some 1, ended = None, typed = 1, correct = 1, mistakes = 0\<rparr>,
         phase = Typing, returned = None\<rparr>"
  let ?s1 = "\<lparr>target = py ''abX'', typed_l = py ''ax'',
         stat = \<lparr>started = Some 1, ended = None, typed = 2, correct = 1, mistakes = 1\<rparr>,
         phase = Typing, returned = None\<rparr>"
  have a: "run lcg words_cfg (fresh_session (py ''abX'')) [press (chr ''a'') 1] = Some ?s"
    by (simp add: pass_defs char_defs example_defs Let_def)
  have b: "key (press (chr ''x'') 2) = Str 120" by (simp add: press_def chr_def py_def)
  have c: "(120::nat) = (if (120::nat) = nl \<or> (120::nat) = cr then sp else 120)"
    by (simp add: char_defs)
  have d: "isprintable lcg 120 \<or> (120::nat) = sp" by (simp add: isprintable_def)
  have e: "length (typed_l ?s) < length (target ?s)" by (simp add: py_def)
  have f: "step lcg words_cfg ?s (press (chr ''x'') 2) = Some ?s1"
    by (simp add: pass_defs char_defs example_defs Let_def)
  have g: "phase ?s1 = Typing" by simp
  have h: "key (press (Str del) 3) = Str del \<or> key (press (Str del) 3) = Str bs \<or>
           key (press (Str del) 3) = Code KEY_BACKSPACE \<or> key (press (Str del) 3) = Code 127"
    by (simp add: press_def)
  show ?thesis
    using a f backspace_undoes_accepted_key[OF a b c d e f g h]
    by (simp add: py_def)
qed

text \<open>
  C5 as stated fails at the key that finishes the session: in WordCount mode on the
  target \<open>a\<close>, the key \<open>a\<close> leads to the results panel, which ignores the backspace, so
  \<open>typed\<close> stays 1 where it was 0 before the key.
\<close>

theorem backspace_after_last_key_ignored:
  "map_option (\<lambda>s. (typed (stat s), correct (stat s), mistakes (stat s), phase s))
     (run lcg words_cfg (fresh_session (py ''a'')) []) = Some (0, 0, 0, Typing) \<and>
   map_option (\<lambda>s. (typed (stat s), correct (stat s), mistakes (stat s), phase s))
     (run lcg words_cfg (fresh_session (py ''a'')) [press (chr ''a'') 1]) = Some (1, 1, 0, Results) \<and>
   map_option (\<lambda>s. (typed (stat s), correct (stat s), mistakes (stat s), phase s))
     (run lcg words_cfg (fresh_session (py ''a'')) [press (chr ''a'') 1, press (Str del) 2])
     = Some (1, 1, 0, Results)"
  by (simp add: pass_defs char_defs example_defs Let_def)

section \<open>Determinism of the word source\<close>

lemma WordSource_seeded:
  assumes "seed c1 = Some sd" "seed c2 = Some sd" "numbers c1 = numbers c2"
    "punctuation c1 = punctuation c2"
  shows "WordSource R c1 e1 = WordSource R c2 e2"
  using assms by (simp add: WordSource_def Let_def)

text \<open>
  C9. Two \<open>WordSource\<close> instances built from configurations with the same seed and the
  same vocabulary flags return the same result from \<open>generate(n)\<close>, whatever entropy
  the operating system would have given either and whatever their other settings;
  \<open>generate\<close> succeeds with \<open>n\<close> words (none for \<open>n \<le> 0\<close>), and \<open>generate(0)\<close> returns
  the empty list and leaves the source as it was.
\<close>

theorem generate_deterministic:
  assumes "seed c1 = Some sd" and "seed c2 = Some sd" and "numbers c1 = numbers c2"
    and "punctuation c1 = punctuation c2"
  shows "generate R (WordSource R c1 e1) n = generate R (WordSource R c2 e2) n \<and>
         (\<exists>ws src. generate R (WordSource R c1 e1) n = Some (ws, src) \<and> length ws = nat n) \<and>
         generate R (WordSource R c1 e1) 0 = Some ([], WordSource R c1 e1)"
proof -
  have a: "generate R (WordSource R c1 e1) n = generate R (WordSource R c2 e2) n"
    using WordSource_seeded[OF assms, of R e1 e2] by simp
  have b: "\<exists>ws src. generate R (WordSource R c1 e1) n = Some (ws, src) \<and> length ws = nat n"
    by (rule generate_total)
  have c: "generate R (WordSource R c1 e1) 0 = Some ([], WordSource R c1 e1)"
    by (simp add: generate_def)
  from a b c show ?thesis by blast
qed

theorem generate_deterministic_witness:
  "seed words_cfg = Some 1 \<and> seed time_cfg = Some 1 \<and> numbers words_cfg = numbers time_cfg \<and>
   punctuation words_cfg = punctuation time_cfg \<and>
   generate lcg (WordSource lcg words_cfg 7) 5 = generate lcg (WordSource lcg time_cfg 11) 5 \<and>
   (\<exists>ws src. generate lcg (WordSource lcg words_cfg 7) 5 = Some (ws, src) \<and> length ws = nat 5) \<and>
   generate lcg (WordSource lcg words_cfg 7) 0 = Some ([], WordSource lcg words_cfg 7)"
proof -
  have a: "seed words_cfg = Some 1" by (simp add: words_cfg_def)
  have b: "seed time_cfg = Some 1" by (simp add: time_cfg_def)
  have c: "numbers words_cfg = numbers time_cfg" by (simp add: words_cfg_def time_cfg_def)
  have d: "punctuation words_cfg = punctuation time_cfg"
    by (simp add: words_cfg_def time_cfg_def)
  show ?thesis
    using a b c d generate_deterministic[OF a b c d, of lcg 7 5 11] by blast
qed

section \<open>Extending the text in Time mode\<close>

lemma state_after_shift:
  "state_after R k g (Suc i) = state_after R k (snd (randbelow R g k)) i"
  by (induction i) simp_all

lemma drawn_word_shift:
  "drawn_word R ws g (Suc i) = drawn_word R ws (snd (randbelow R g (length ws))) i"
  unfolding drawn_word_def state_after_shift ..

lemma draw_eq:
  "ws \<noteq> [] \<Longrightarrow>
   draw R ws g n = Some (map (drawn_word R ws g) [0..<n], state_after R (length ws) g n)"
proof (induction n arbitrary: g)
  case 0
  then show ?case by simp
next
  case (Suc n)
  obtain i g1 where r: "randbelow R g (length ws) = (i, g1)"
    by (cases "randbelow R g (length ws)") auto
  have c: "choice R g ws = Some (ws ! (i mod length ws), g1)"
    using Suc.prems r by (simp add: choice_def)
  have w0: "drawn_word R ws g 0 = ws ! (i mod length ws)"
    using r by (simp add: drawn_word_def)
  have g1: "snd (randbelow R g (length ws)) = g1" using r by simp
  have m: "map (drawn_word R ws g) [0..<Suc n]
             = drawn_word R ws g 0 # map (drawn_word R ws g1) [0..<n]"
  proof -
    have "[0..<Suc n] = 0 # map Suc [0..<n]"
      by (simp add: upt_conv_Cons map_Suc_upt del: upt_Suc)
    then have "map (drawn_word R ws g) [0..<Suc n]
                 = drawn_word R ws g 0 # map (\<lambda>i. drawn_word R ws g (Suc i)) [0..<n]"
      by (simp add: comp_def del: upt_Suc)
    then show ?thesis by (simp only: drawn_word_shift g1)
  qed
  have s: "state_after R (length ws) g (Suc n) = state_after R (length ws) g1 n"
    by (simp only: state_after_shift g1)
  show ?case
    using c Suc.IH[OF Suc.prems, of g1] by (simp only: draw.simps m s w0) simp
qed

lemma src_words_vocabulary: "src_words (WordSource R cfg e) = vocabulary cfg"
  by (simp add: WordSource_def vocabulary_def Let_def)

lemma rng_config_state: "rng (WordSource R cfg e) = config_state R cfg e"
  by (simp add: WordSource_def config_state_def Let_def)

lemma vocabulary_not_Nil: "vocabulary cfg \<noteq> []"
  by (simp add: vocabulary_def DEFAULT_WORDS_not_Nil)

lemma generate_eq:
  "\<exists>src. generate R (WordSource R cfg e) n
     = Some (map (drawn_word R (vocabulary cfg) (config_state R cfg e)) [0..<nat n], src)"
  using draw_eq[OF vocabulary_not_Nil, of R cfg "config_state R cfg e" "nat n"]
  by (simp add: generate_def src_words_vocabulary rng_config_state)

lemma drawn_word_in: "vocab \<noteq> [] \<Longrightarrow> drawn_word R vocab g i \<in> set vocab"
  by (simp add: drawn_word_def)

lemma est_words_ge: "est_words R cfg = Some n \<Longrightarrow> 50 \<le> n"
  by (auto simp: est_words_def le_floor_iff split: option.splits pyfloat.splits if_splits)

lemma build_text_time:
  assumes "mode cfg = ''time''" "build_text R (WordSource R cfg e) cfg = Some t0"
  shows "\<exists>n\<ge>50. t0 = join [sp] (map (drawn_word R (vocabulary cfg) (config_state R cfg e)) [0..<n])"
proof -
  from assms obtain k where k: "est_words R cfg = Some k"
    by (auto simp: build_text_def split: option.splits)
  have "\<exists>src. generate R (WordSource R cfg e) k
     = Some (map (drawn_word R (vocabulary cfg) (config_state R cfg e)) [0..<nat k], src)"
    by (rule generate_eq)
  then obtain src where g: "generate R (WordSource R cfg e) k
     = Some (map (drawn_word R (vocabulary cfg) (config_state R cfg e)) [0..<nat k], src)"
    by blast
  have "t0 = join [sp] (map (drawn_word R (vocabulary cfg) (config_state R cfg e)) [0..<nat k])"
    using assms k g by (simp add: build_text_def)
  moreover have "50 \<le> nat k" using est_words_ge[OF k] by simp
  ultimately show ?thesis by blast
qed

lemma accept_char_at_end:
  assumes "length (target s) = length (typed_l s) + 1"
  shows "\<exists>s1. accept_char s c = Some s1 \<and> typed_l s1 = typed_l s @ [c] \<and>
              target s1 = target s \<and> phase s1 = phase s \<and>
              started (stat s1) = started (stat s) \<and> ended (stat s1) = ended (stat s)"
proof -
  have g: "py_get (target s) (int (length (typed_l s @ [c])) - 1) = Some (target s ! length (typed_l s))"
    using py_get_nth[of "length (typed_l s @ [c])" "target s"] assms by simp
  show ?thesis using assms g by (simp add: accept_char_def Let_def)
qed

lemma finished_time_fields:
  "mode cfg = ''time'' \<Longrightarrow> started (stat s') = started (stat s) \<Longrightarrow>
   ended (stat s') = ended (stat s) \<Longrightarrow> finished cfg s' now = finished cfg s now"
  by (simp add: finished_def seconds_elapsed_def split: option.splits)

lemma generate_50:
  "\<exists>src. generate R (WordSource R cfg e) 50
     = Some (map (drawn_word R (vocabulary cfg) (config_state R cfg e)) [0..<50], src)"
proof -
  have n: "nat (50::int) = 50" by simp
  have "\<exists>src. generate R (WordSource R cfg e) 50
     = Some (map (drawn_word R (vocabulary cfg) (config_state R cfg e)) [0..<nat 50], src)"
    by (rule generate_eq)
  then show ?thesis by (simp only: n)
qed

lemma drawn_words_in:
  "list_all (\<lambda>w. w \<in> set (vocabulary cfg)) (map (drawn_word R (vocabulary cfg) g) [0..<n])"
  by (induction n) (simp_all add: drawn_word_in[OF vocabulary_not_Nil])

text \<open>
  C10. In Time mode, when a printable key brings the typed list to the end of the target
  and the session is not finished at the extension test, the pass succeeds and the
  target grows by a space and 50 words joined by spaces: the first 50 draws, from the
  configuration's vocabulary, of a generator newly seeded from the configuration (from
  the entropy when it has no seed). With a seed that generator starts in the state
  \<open>random.Random(seed)\<close> whatever the session's state and the entropy, so every
  extension appends the same 50 words; and the text a session starts with is drawn in
  the same way from the same first state, at least 50 words of it, so the extension
  repeats its first 50 words instead of continuing the stream.
\<close>

theorem time_mode_extension:
  assumes "mode cfg = ''time''" and "phase s = Typing"
    and "key inp = Str c0" and "c = (if c0 = nl \<or> c0 = cr then sp else c0)"
    and "isprintable R c \<or> c = sp"
    and "length (target s) = length (typed_l s) + 1"
    and "\<not> finished cfg (begin_timing s c (t_start inp)) (t_extend inp)"
  shows "(\<exists>s1. step R cfg s inp = Some s1 \<and> typed_l s1 = typed_l s @ [c] \<and>
            target s1 = target s @ [sp] @ join [sp]
              (map (drawn_word R (vocabulary cfg) (config_state R cfg (os_entropy inp))) [0..<50])) \<and>
         list_all (\<lambda>w. w \<in> set (vocabulary cfg))
           (map (drawn_word R (vocabulary cfg) (config_state R cfg (os_entropy inp))) [0..<50]) \<and>
         (\<forall>sd. seed cfg = Some sd \<longrightarrow> config_state R cfg (os_entropy inp) = seeded R sd) \<and>
         (\<forall>e t0. build_text R (WordSource R cfg e) cfg = Some t0 \<longrightarrow>
            (\<exists>n\<ge>50. t0 = join [sp]
               (map (drawn_word R (vocabulary cfg) (config_state R cfg e)) [0..<n])))"
proof -
  let ?b = "begin_timing s c (t_start inp)"
  define ws where "ws = map (drawn_word R (vocabulary cfg) (config_state R cfg (os_entropy inp))) [0..<50]"
  obtain src where g: "generate R (WordSource R cfg (os_entropy inp)) 50 = Some (ws, src)"
    unfolding ws_def using generate_50[of R cfg "os_entropy inp"] by blast
  have "length (target ?b) = length (typed_l ?b) + 1" using assms(6) by simp
  from accept_char_at_end[OF this, of c] obtain a where
    a: "accept_char ?b c = Some a" "typed_l a = typed_l s @ [c]" "target a = target s"
       "phase a = phase s" "started (stat a) = started (stat ?b)" "ended (stat a) = ended (stat ?b)"
    by auto
  have nf: "\<not> finished cfg a (t_extend inp)"
    using finished_time_fields[OF assms(1) a(5,6)] assms(7) by simp
  let ?p = "a\<lparr>target := target a @ [sp] @ join [sp] ws\<rparr>"
  have e: "extend_text R cfg a inp = Some ?p"
    using assms(1,6) a(2,3) nf g by (simp add: extend_text_def)
  have p: "printable R cfg s c inp = Some ?p"
    using a(1) e by (simp add: printable_def)
  have m: "main_pass R cfg s inp = Some (check_end cfg ?p inp)"
    using main_pass_printable_bind[OF assms(3,4,5), of cfg s] p by simp
  have st: "step R cfg s inp = Some (check_end cfg ?p inp)"
    using m assms(2) by (simp add: step_def)
  have t1: "typed_l (check_end cfg ?p inp) = typed_l s @ [c]" using a(2) by simp
  have t2: "target (check_end cfg ?p inp) = target s @ [sp] @ join [sp] ws" using a(3) by simp
  have 1: "\<exists>s1. step R cfg s inp = Some s1 \<and> typed_l s1 = typed_l s @ [c] \<and>
            target s1 = target s @ [sp] @ join [sp] ws"
    using st t1 t2 by blast
  have 2: "list_all (\<lambda>w. w \<in> set (vocabulary cfg)) ws"
    unfolding ws_def by (rule drawn_words_in)
  have 3: "\<forall>sd. seed cfg = Some sd \<longrightarrow> config_state R cfg (os_entropy inp) = seeded R sd"
    by (simp add: config_state_def)
  have 4: "\<forall>e t0. build_text R (WordSource R cfg e) cfg = Some t0 \<longrightarrow>
            (\<exists>n\<ge>50. t0 = join [sp]
               (map (drawn_word R (vocabulary cfg) (config_state R cfg e)) [0..<n]))"
    by (intro allI impI) (rule build_text_time[OF assms(1)])
  from 1[unfolded ws_def] 2[unfolded ws_def] 3 4 show ?thesis by (intro conjI)
qed

lemma ext_words_example:
  "map (drawn_word lcg (vocabulary time_cfg) (config_state lcg time_cfg 0)) [0..<50]
   = map py [''of'', ''set'', ''they'', ''room'', ''page'', ''hours'', ''idea'',
  ''mile'', ''war'', ''made'', ''during'', ''me'', ''on'', ''book'',
  ''sing'', ''we'', ''far'', ''always'', ''ship'', ''low'', ''tree'',
  ''upon'', ''Indian'', ''unit'', ''few'', ''both'', ''follow'',
  ''something'', ''run'', ''some'', ''live'', ''against'', ''quickly'',
  ''far'', ''top'', ''try'', ''money'', ''each'', ''stand'', ''could'',
  ''that'', ''me'', ''soon'', ''our'', ''away'', ''what'', ''seem'',
  ''hours'', ''where'', ''away'']"
  by code_simp

theorem time_mode_extension_witness:
  "mode time_cfg = ''time'' \<and> phase (fresh_session (py ''a'')) = Typing \<and>
   length (target (fresh_session (py ''a''))) = length (typed_l (fresh_session (py ''a''))) + 1 \<and>
   \<not> finished time_cfg (begin_timing (fresh_session (py ''a'')) 97 (t_start (press (Str 97) 1)))
        (t_extend (press (Str 97) 1)) \<and>
   seed time_cfg = Some 1 \<and> config_state lcg time_cfg 0 = seeded lcg 1 \<and>
   (\<exists>s1. step lcg time_cfg (fresh_session (py ''a'')) (press (Str 97) 1) = Some s1 \<and>
      typed_l s1 = [97] \<and>
      target s1 =
        py ''a of set they room page hours idea mile war made during me'' @
        py '' on book sing we far always ship low tree upon Indian unit'' @
        py '' few both follow something run some live against quickly far'' @
        py '' top try money each stand could that me soon our away what'' @
        py '' seem hours where away'')"
proof -
  have a: "mode time_cfg = ''time''" by (simp add: time_cfg_def)
  have b: "phase (fresh_session (py ''a'')) = Typing" by (simp add: fresh_session_def)
  have c: "key (press (Str 97) 1) = Str 97" by (simp add: press_def)
  have d: "(97::nat) = (if (97::nat) = nl \<or> (97::nat) = cr then sp else 97)"
    by (simp add: char_defs)
  have e: "isprintable lcg 97 \<or> (97::nat) = sp" by (simp add: isprintable_def)
  have f: "length (target (fresh_session (py ''a''))) = length (typed_l (fresh_session (py ''a''))) + 1"
    by (simp add: fresh_session_def py_def)
  have g: "\<not> finished time_cfg (begin_timing (fresh_session (py ''a'')) 97 (t_start (press (Str 97) 1)))
        (t_extend (press (Str 97) 1))"
    by (simp add: finished_def begin_timing_def start_def seconds_elapsed_def fresh_session_def
        Stats_def press_def time_cfg_def strip_def isspace_def)
  have h: "seed time_cfg = Some 1" by (simp add: time_cfg_def)
  have i: "config_state lcg time_cfg 0 = seeded lcg 1" by (simp add: config_state_def h)
  have j: "join [sp] (map (drawn_word lcg (vocabulary time_cfg)
              (config_state lcg time_cfg (os_entropy (press (Str 97) 1)))) [0..<50])
           = py ''of set they room page hours idea mile war made during me on book sing we far always ship low tree upon Indian unit few both follow something run some live against quickly far top try money each stand could that me soon our away what seem hours where away''"
    unfolding press_fields ext_words_example by (simp add: py_def sp_def)
  from time_mode_extension[OF a b c d e f g]
  obtain s1 where s1: "step lcg time_cfg (fresh_session (py ''a'')) (press (Str 97) 1) = Some s1"
    "typed_l s1 = typed_l (fresh_session (py ''a'')) @ [97]"
    "target s1 = target (fresh_session (py ''a'')) @ [sp] @ join [sp]
       (map (drawn_word lcg (vocabulary time_cfg)
              (config_state lcg time_cfg (os_entropy (press (Str 97) 1)))) [0..<50])"
    by blast
  have k: "typed_l s1 = [97]" using s1(2) by (simp add: fresh_session_def)
  have l: "target s1 =
        py ''a of set they room page hours idea mile war made during me'' @
        py '' on book sing we far always ship low tree upon Indian unit'' @
        py '' few both follow something run some live against quickly far'' @
        py '' top try money each stand could that me soon our away what'' @
        py '' seem hours where away''"
    unfolding s1(3) j by (simp add: fresh_session_def py_def sp_def)
  from a b f g h i s1(1) k l show ?thesis by blast
qed

end
